theory Spec2Isabelle
  imports Main
begin

section \<open>Intrusive list (src/intrusive_list.h)\<close>

text \<open>
  Objects are identified by their address. A \<open>list_element\<close> has the two pointer
  fields \<open>next\<close> and \<open>prev\<close>; the heap stores them for every address. The sentinel
  \<open>fake_node\<close> of a list is a \<open>list_element\<close> too, so a list is named by the
  address of its sentinel and an iterator by the address it holds in \<open>current\<close>.
  Every assignment of the source is one heap update, made in the source's order, and
  every read is made in the heap as it is at that point.
\<close>

type_synonym addr = nat

record heap =
  nxt :: "addr \<Rightarrow> addr"
  prv :: "addr \<Rightarrow> addr"

definition set_next :: "addr \<Rightarrow> addr \<Rightarrow> 'a heap_scheme \<Rightarrow> 'a heap_scheme" where
  \<comment> \<open>\<open>a->next = b\<close>\<close>
  "set_next a b h = h\<lparr>nxt := (nxt h)(a := b)\<rparr>"

definition set_prev :: "addr \<Rightarrow> addr \<Rightarrow> 'a heap_scheme \<Rightarrow> 'a heap_scheme" where
  \<comment> \<open>\<open>a->prev = b\<close>\<close>
  "set_prev a b h = h\<lparr>prv := (prv h)(a := b)\<rparr>"

definition is_linked :: "'a heap_scheme \<Rightarrow> addr \<Rightarrow> bool" where
  \<comment> \<open>\<open>return next != this || prev != this\<close>\<close>
  "is_linked h a = (nxt h a \<noteq> a \<or> prv h a \<noteq> a)"

definition list_element :: "addr \<Rightarrow> 'a heap_scheme \<Rightarrow> 'a heap_scheme" where
  \<comment> \<open>constructor: \<open>next = this; prev = this\<close>\<close>
  "list_element a h = set_prev a a (set_next a a h)"

definition unlink :: "addr \<Rightarrow> 'a heap_scheme \<Rightarrow> 'a heap_scheme" where
  \<comment> \<open>\<open>next->prev = prev; prev->next = next; next = this; prev = this\<close>\<close>
  "unlink a h =
     (let h1 = set_prev (nxt h a) (prv h a) h;
          h2 = set_next (prv h1 a) (nxt h1 a) h1;
          h3 = set_next a a h2
      in set_prev a a h3)"

definition non_const_transform :: "'a heap_scheme \<Rightarrow> addr \<Rightarrow> addr" where
  \<comment> \<open>\<open>iterator(cur->prev->next)\<close>\<close>
  "non_const_transform h cur = nxt h (prv h cur)"

definition list_init :: "addr \<Rightarrow> 'a heap_scheme \<Rightarrow> 'a heap_scheme" where
  \<comment> \<open>\<open>list()\<close>: \<open>fake_node.next = &fake_node; fake_node.prev = &fake_node\<close>\<close>
  "list_init L h = set_prev L L (set_next L L h)"

definition empty_list :: "'a heap_scheme \<Rightarrow> addr \<Rightarrow> bool" where
  \<comment> \<open>\<open>empty()\<close>: \<open>fake_node.next == &fake_node\<close>\<close>
  "empty_list h L = (nxt h L = L)"

definition begin_it :: "'a heap_scheme \<Rightarrow> addr \<Rightarrow> addr" where
  \<comment> \<open>\<open>begin()\<close>: \<open>iterator(fake_node.next)\<close>\<close>
  "begin_it h L = nxt h L"

definition end_it :: "addr \<Rightarrow> addr" where
  \<comment> \<open>\<open>end()\<close>: \<open>iterator(&fake_node)\<close>\<close>
  "end_it L = L"

definition push_back :: "addr \<Rightarrow> addr \<Rightarrow> 'a heap_scheme \<Rightarrow> 'a heap_scheme" where
  \<comment> \<open>\<open>fake_node.prev->next = node; node->prev = fake_node.prev;
      node->next = &fake_node; fake_node.prev = node\<close>\<close>
  "push_back L n h =
     (let h1 = set_next (prv h L) n h;
          h2 = set_prev n (prv h1 L) h1;
          h3 = set_next n L h2
      in set_prev L n h3)"

definition push_front :: "addr \<Rightarrow> addr \<Rightarrow> 'a heap_scheme \<Rightarrow> 'a heap_scheme" where
  \<comment> \<open>\<open>fake_node.next->prev = node; node->next = fake_node.next;
      node->prev = &fake_node; fake_node.next = node\<close>\<close>
  "push_front L n h =
     (let h1 = set_prev (nxt h L) n h;
          h2 = set_next n (nxt h1 L) h1;
          h3 = set_prev n L h2
      in set_next L n h3)"

definition pop_back :: "addr \<Rightarrow> 'a heap_scheme \<Rightarrow> 'a heap_scheme" where
  \<comment> \<open>\<open>fake_node.prev->unlink()\<close>\<close>
  "pop_back L h = unlink (prv h L) h"

definition pop_front :: "addr \<Rightarrow> 'a heap_scheme \<Rightarrow> 'a heap_scheme" where
  \<comment> \<open>\<open>fake_node.next->unlink()\<close>\<close>
  "pop_front L h = unlink (nxt h L) h"

definition insert_node :: "addr \<Rightarrow> addr \<Rightarrow> 'a heap_scheme \<Rightarrow> 'a heap_scheme" where
  \<comment> \<open>\<open>insert(pos, node)\<close>; the iterator it returns is \<open>node\<close>:
      \<open>p->prev->next = node; node->next = p; node->prev = p->prev; p->prev = node\<close>\<close>
  "insert_node pos n h =
     (let p = non_const_transform h pos;
          h1 = set_next (prv h p) n h;
          h2 = set_next n p h1;
          h3 = set_prev n (prv h2 p) h2
      in set_prev p n h3)"

definition erase :: "addr \<Rightarrow> 'a heap_scheme \<Rightarrow> addr \<times> 'a heap_scheme" where
  \<comment> \<open>\<open>iterator cur = ++p; p->prev->unlink(); return cur\<close>, where \<open>++p\<close> has
      already moved \<open>p\<close> forward\<close>
  "erase pos h =
     (let p = non_const_transform h pos;
          cur = nxt h p
      in (cur, unlink (prv h cur) h))"

definition splice_nodes :: "addr \<Rightarrow> addr \<Rightarrow> addr \<Rightarrow> 'a heap_scheme \<Rightarrow> 'a heap_scheme" where
  \<comment> \<open>\<open>splice(pos, l, first, last)\<close>; the list argument \<open>l\<close> is never used by
      the source\<close>
  "splice_nodes pos fst_it lst_it h =
     (if fst_it = lst_it then h
      else
        let p = non_const_transform h pos;
            f = non_const_transform h fst_it;
            l = non_const_transform h lst_it;
            h1 = set_next (prv h p) f h;
            h2 = set_next (prv h1 f) l h1;
            h3 = set_next (prv h2 l) p h2;
            tmp = prv h3 f;
            h4 = set_prev f (prv h3 p) h3;
            h5 = set_prev p (prv h4 l) h4
        in set_prev l tmp h5)"

subsection \<open>Traversal\<close>

text \<open>
  Walking the chain with \<open>++it\<close> from \<open>begin()\<close> until \<open>end()\<close>, and with \<open>--it\<close>
  from the last element back to the sentinel. The walk of a corrupted chain need not reach
  the sentinel, so it carries a step bound and yields \<open>None\<close> when the bound is used up.
\<close>

fun forward :: "nat \<Rightarrow> 'a heap_scheme \<Rightarrow> addr \<Rightarrow> addr \<Rightarrow> addr list option" where
  "forward 0 h L a = None"
| "forward (Suc k) h L a =
     (if a = end_it L then Some [] else map_option (Cons a) (forward k h L (nxt h a)))"

fun backward :: "nat \<Rightarrow> 'a heap_scheme \<Rightarrow> addr \<Rightarrow> addr \<Rightarrow> addr list option" where
  "backward 0 h L a = None"
| "backward (Suc k) h L a =
     (if a = end_it L then Some [] else map_option (Cons a) (backward k h L (prv h a)))"

definition to_list :: "nat \<Rightarrow> 'a heap_scheme \<Rightarrow> addr \<Rightarrow> addr list option" where
  "to_list k h L = forward k h L (begin_it h L)"

definition to_list_rev :: "nat \<Rightarrow> 'a heap_scheme \<Rightarrow> addr \<Rightarrow> addr list option" where
  "to_list_rev k h L = backward k h L (prv h L)"

subsection \<open>The circular chain as a predicate\<close>

text \<open>
  \<open>chain h a xs b\<close>: following \<open>next\<close> from \<open>a\<close> visits \<open>xs\<close> and then \<open>b\<close>, and
  every \<open>prev\<close> on the way points back. \<open>ring h L xs\<close>: the list with sentinel \<open>L\<close>
  holds exactly \<open>xs\<close>, in this order.
\<close>

primrec chain :: "'a heap_scheme \<Rightarrow> addr \<Rightarrow> addr list \<Rightarrow> addr \<Rightarrow> bool" where
  "chain h a [] b = (nxt h a = b \<and> prv h b = a)"
| "chain h a (x # xs) b = (nxt h a = x \<and> prv h x = a \<and> chain h x xs b)"

definition ring :: "'a heap_scheme \<Rightarrow> addr \<Rightarrow> addr list \<Rightarrow> bool" where
  "ring h L xs = (chain h L xs L \<and> distinct (L # xs))"

definition heap0 :: heap where
  \<comment> \<open>every object freshly constructed: \<open>next = prev = this\<close>\<close>
  "heap0 = \<lparr>nxt = (\<lambda>a. a), prv = (\<lambda>a. a)\<rparr>"

subsection \<open>Sequences of list operations\<close>

text \<open>
  The member functions of \<open>list\<close> that take no second list, as a datatype of calls:
  \<open>list_step\<close> runs one call on the heap. \<open>list_model\<close> is the same call on the
  sequence of elements the list is meant to hold, \<open>None\<close> where the call is outside
  its precondition (a node that is already linked, a position that is not in the
  list, a pop on the empty list); it is what the traversals are compared with.
\<close>

datatype list_op =
  PushFront addr | PushBack addr | PopFront | PopBack | Insert addr addr | Erase addr

fun list_step :: "addr \<Rightarrow> list_op \<Rightarrow> 'a heap_scheme \<Rightarrow> 'a heap_scheme" where
  "list_step L (PushFront n) h = push_front L n h"
| "list_step L (PushBack n) h = push_back L n h"
| "list_step L PopFront h = pop_front L h"
| "list_step L PopBack h = pop_back L h"
| "list_step L (Insert pos n) h = insert_node pos n h"
| "list_step L (Erase pos) h = snd (erase pos h)"

fun list_model :: "addr \<Rightarrow> list_op \<Rightarrow> addr list \<Rightarrow> addr list option" where
  "list_model L (PushFront n) xs = (if n \<in> set (L # xs) then None else Some (n # xs))"
| "list_model L (PushBack n) xs = (if n \<in> set (L # xs) then None else Some (xs @ [n]))"
| "list_model L PopFront xs = (case xs of [] \<Rightarrow> None | x # ys \<Rightarrow> Some ys)"
| "list_model L PopBack xs = (if xs = [] then None else Some (butlast xs))"
| "list_model L (Insert pos n) xs =
     (if n \<in> set (L # xs) then None
      else if pos = L then Some (xs @ [n])
      else if pos \<in> set xs
        then Some (takeWhile (\<lambda>z. z \<noteq> pos) xs @ n # dropWhile (\<lambda>z. z \<noteq> pos) xs)
      else None)"
| "list_model L (Erase pos) xs = (if pos \<in> set xs then Some (remove1 pos xs) else None)"

fun list_models :: "addr \<Rightarrow> list_op list \<Rightarrow> addr list \<Rightarrow> addr list option" where
  "list_models L [] xs = Some xs"
| "list_models L (p # ps) xs =
     (case list_model L p xs of None \<Rightarrow> None | Some ys \<Rightarrow> list_models L ps ys)"

section \<open>Signals (src/signals.h and src/unnamed/part_000)\<close>

text \<open>
  One signal is modelled. Its members are the list \<open>connections\<close>, whose sentinel
  lives at the address \<open>fake\<close>, and the pointer \<open>top_token\<close>. Every other address
  may hold a \<open>connection\<close>: a \<open>list_element\<close> with the fields \<open>sig\<close> and \<open>slot\<close>.

  The two source files differ in a few statements; the parameter \<open>impl\<close> selects the file.
\<close>

datatype impl = Main | Alt
  \<comment> \<open>\<open>Main\<close> is src/signals.h, \<open>Alt\<close> is src/unnamed/part_000\<close>

datatype sigptr = Uninit | Null | Sig
  \<comment> \<open>the field \<open>signal *sig\<close>: never initialised, \<open>nullptr\<close>, or the signal\<close>

datatype exn = BadFunctionCall | UserException

datatype ub = NullDeref | UseAfterFree | Misuse
  \<comment> \<open>undefined behaviour: a null or indeterminate \<open>sig\<close> is dereferenced; a member of
      the destroyed signal is read or written; an action names an address that cannot hold
      the object it needs\<close>

datatype outcome = Returned | Threw exn | Undefined ub

text \<open>
  What a program, or the body of a callback, can do with the signal and its connections.
  \<open>Connect c f body\<close> is \<open>connection c = sig.connect(f)\<close> for a callable \<open>f\<close> whose
  body is \<open>body\<close>; \<open>MoveCtor d c\<close> is \<open>connection d(std::move(c))\<close>;
  \<open>MoveAssign d c\<close> is \<open>d = std::move(c)\<close>; \<open>Emit x\<close> is \<open>sig(x)\<close>;
  \<open>Destroy\<close> ends the signal's lifetime.
\<close>

datatype action =
    Default addr
  | Connect addr nat "action list"
  | Disconnect addr
  | Destruct addr
  | MoveCtor addr addr
  | MoveAssign addr addr
  | Emit nat
  | Destroy
  | Throw

type_synonym slot_t = "nat \<times> action list"

record token =
  tcur :: addr
  tgone :: bool
  \<comment> \<open>\<open>current\<close>; and \<open>sig == nullptr\<close> in signals.h, \<open>destroyed\<close> in part_000.
      The field \<open>next\<close> is implicit: see \<open>top\<close> below.\<close>

text \<open>
  An \<open>iteration_token\<close> is a local variable of \<open>operator()\<close>. The token of the
  emission that started when \<open>n\<close> emissions of the signal were running is \<open>tok n\<close>, and
  its \<open>next\<close> points to \<open>tok (n - 1)\<close> (\<open>nullptr\<close> when \<open>n = 0\<close>). \<open>top\<close>
  is the number of tokens reachable from \<open>top_token\<close>: \<open>top_token\<close> is
  \<open>nullptr\<close> when \<open>top = 0\<close> and \<open>&tok (top - 1)\<close> otherwise, so that
  \<open>top_token = tok.next\<close> for the token \<open>tok n\<close> is \<open>top := n\<close>.
\<close>

record state = heap +
  csig :: "addr \<Rightarrow> sigptr"
  cslot :: "addr \<Rightarrow> slot_t option"
  tok :: "nat \<Rightarrow> token"
  top :: nat
  alive :: bool
  trace :: "(addr \<times> nat \<times> nat) list"
  \<comment> \<open>\<open>alive\<close>: the signal has not been destroyed; \<open>trace\<close>: the callbacks
      invoked so far, each with its connection, the identity of the callable and the
      argument\<close>

definition fake :: addr where
  "fake = 0"

definition connection_default :: "addr \<Rightarrow> state \<Rightarrow> state" where
  \<comment> \<open>\<open>connection() = default\<close>: the base is constructed, \<open>slot\<close> is empty and \<open>sig\<close>
      is left uninitialised\<close>
  "connection_default c s =
     (let s1 = list_element c s
      in s1\<lparr>csig := (csig s1)(c := Uninit), cslot := (cslot s1)(c := None)\<rparr>)"

definition connect :: "addr \<Rightarrow> slot_t \<Rightarrow> state \<Rightarrow> ub + state" where
  \<comment> \<open>\<open>connection(signal *sig, slot_t slot)\<close>: \<open>sig(sig), slot(std::move(slot))\<close>,
      then \<open>sig->connections.push_front(*this)\<close>\<close>
  "connect c f s =
     (if \<not> alive s then Inl UseAfterFree
      else
        let s1 = list_element c s;
            s2 = s1\<lparr>csig := (csig s1)(c := Sig), cslot := (cslot s1)(c := Some f)\<rparr>
        in Inr (push_front fake c s2))"

definition advance_tokens :: "addr \<Rightarrow> state \<Rightarrow> state" where
  \<comment> \<open>the loop of \<open>disconnect\<close> over the tokens from \<open>top_token\<close>:
      \<open>if (tok->current != end() && &*tok->current == this) ++tok->current\<close>\<close>
  "advance_tokens c s =
     s\<lparr>tok := (\<lambda>n. if n < top s \<and> tcur (tok s n) \<noteq> end_it fake \<and> tcur (tok s n) = c
                     then (tok s n)\<lparr>tcur := nxt s (tcur (tok s n))\<rparr> else tok s n)\<rparr>"

definition disconnect :: "impl \<Rightarrow> addr \<Rightarrow> state \<Rightarrow> ub + state" where
  \<comment> \<open>\<open>if (is_linked()) { unlink(); slot = {}; for (...) ...; sig = nullptr; }\<close>;
      part_000 has no \<open>sig = nullptr\<close>\<close>
  "disconnect i c s =
     (if is_linked s c then
        let s1 = unlink c s;
            s2 = s1\<lparr>cslot := (cslot s1)(c := None)\<rparr>
        in if csig s2 c \<noteq> Sig then Inl NullDeref
           else if \<not> alive s2 then Inl UseAfterFree
           else
             let s3 = advance_tokens c s2
             in Inr (case i of Main \<Rightarrow> s3\<lparr>csig := (csig s3)(c := Null)\<rparr> | Alt \<Rightarrow> s3)
      else Inr s)"

definition connection_dtor :: "impl \<Rightarrow> addr \<Rightarrow> state \<Rightarrow> ub + state" where
  \<comment> \<open>\<open>~connection() { disconnect(); }\<close>, then the base's \<open>~list_element() { unlink(); }\<close>\<close>
  "connection_dtor i c s =
     (case disconnect i c s of Inl u \<Rightarrow> Inl u | Inr s1 \<Rightarrow> Inr (unlink c s1))"

definition repoint_tokens :: "addr \<Rightarrow> addr \<Rightarrow> state \<Rightarrow> state" where
  \<comment> \<open>the loop of \<open>safe_move\<close>:
      \<open>if (tok->current != end() && &*tok->current == &other) tok->current = as_iterator(*this)\<close>\<close>
  "repoint_tokens this other s =
     s\<lparr>tok := (\<lambda>n. if n < top s \<and> tcur (tok s n) \<noteq> end_it fake \<and> tcur (tok s n) = other
                     then (tok s n)\<lparr>tcur := this\<rparr> else tok s n)\<rparr>"

definition safe_move :: "addr \<Rightarrow> addr \<Rightarrow> state \<Rightarrow> ub + state" where
  \<comment> \<open>\<open>if (other.is_linked()) { other.sig->connections.insert(as_iterator(other), *this);
      other.unlink(); for (...) ... }\<close>\<close>
  "safe_move this other s =
     (if is_linked s other then
        if csig s other \<noteq> Sig \<or> csig s this \<noteq> Sig then Inl NullDeref
        else if \<not> alive s then Inl UseAfterFree
        else
          let s1 = insert_node other this s;
              s2 = unlink other s1
          in Inr (repoint_tokens this other s2)
      else Inr s)"

definition move_ctor :: "addr \<Rightarrow> addr \<Rightarrow> state \<Rightarrow> ub + state" where
  \<comment> \<open>\<open>connection(connection &&other) : sig(other.sig), slot(other.slot) { safe_move(other); }\<close>:
      \<open>other.slot\<close> is an lvalue, so the callable is copied\<close>
  "move_ctor this other s =
     (let s1 = list_element this s;
          s2 = s1\<lparr>csig := (csig s1)(this := csig s1 other)\<rparr>;
          s3 = s2\<lparr>cslot := (cslot s2)(this := cslot s2 other)\<rparr>
      in safe_move this other s3)"

definition move_assign :: "impl \<Rightarrow> addr \<Rightarrow> addr \<Rightarrow> state \<Rightarrow> ub + state" where
  \<comment> \<open>\<open>if (this == &other) return *this; disconnect(); sig = other.sig;
      slot = std::move(other.slot); safe_move(other);\<close> The moved-from
      \<open>std::function\<close> is left empty, as the common standard libraries leave it.\<close>
  "move_assign i this other s =
     (if this = other then Inr s
      else case disconnect i this s of
        Inl u \<Rightarrow> Inl u
      | Inr s1 \<Rightarrow>
          let s2 = s1\<lparr>csig := (csig s1)(this := csig s1 other)\<rparr>;
              s3 = s2\<lparr>cslot := (cslot s2)(this := cslot s2 other, other := None)\<rparr>
          in safe_move this other s3)"

text \<open>
  The actions that end at once. An object is constructed only at an address that holds no
  linked element, and no connection lives at the address of the sentinel.
\<close>

fun step :: "impl \<Rightarrow> action \<Rightarrow> state \<Rightarrow> ub + state" where
  "step i (Default c) s =
     (if c = fake \<or> is_linked s c then Inl Misuse else Inr (connection_default c s))"
| "step i (Connect c f body) s =
     (if c = fake \<or> is_linked s c then Inl Misuse else connect c (f, body) s)"
| "step i (Disconnect c) s = (if c = fake then Inl Misuse else disconnect i c s)"
| "step i (Destruct c) s = (if c = fake then Inl Misuse else connection_dtor i c s)"
| "step i (MoveCtor d c) s =
     (if d = fake \<or> c = fake \<or> d = c \<or> is_linked s d then Inl Misuse else move_ctor d c s)"
| "step i (MoveAssign d c) s =
     (if d = fake \<or> c = fake then Inl Misuse else move_assign i d c s)"
| "step i a s = Inr s"

subsection \<open>Destruction of the signal\<close>

definition mark_tokens :: "state \<Rightarrow> state" where
  \<comment> \<open>\<open>if (tok->current != connections.end()) tok->sig = nullptr\<close>
      (part_000: \<open>tok->destroyed = true\<close>), for the tokens from \<open>top_token\<close>\<close>
  "mark_tokens s =
     s\<lparr>tok := (\<lambda>n. if n < top s \<and> tcur (tok s n) \<noteq> end_it fake
                     then (tok s n)\<lparr>tgone := True\<rparr> else tok s n)\<rparr>"

fun unlink_all :: "nat \<Rightarrow> state \<Rightarrow> state option" where
  \<comment> \<open>\<open>while (!connections.empty()) { front().slot = {}; front().sig = nullptr;
      front().unlink(); }\<close>\<close>
  "unlink_all 0 s = None"
| "unlink_all (Suc k) s =
     (if empty_list s fake then Some s
      else
        let c = nxt s fake;
            s1 = s\<lparr>cslot := (cslot s)(c := None)\<rparr>;
            s2 = s1\<lparr>csig := (csig s1)(c := Null)\<rparr>
        in unlink_all k (unlink c s2))"

fun clear :: "nat \<Rightarrow> addr \<Rightarrow> 'a heap_scheme \<Rightarrow> 'a heap_scheme option" where
  \<comment> \<open>\<open>list::clear\<close>, run by \<open>~list()\<close>: \<open>while (!empty()) pop_back();\<close>\<close>
  "clear 0 L h = None"
| "clear (Suc k) L h = (if empty_list h L then Some h else clear k L (pop_back L h))"

definition signal_dtor :: "impl \<Rightarrow> nat \<Rightarrow> state \<Rightarrow> state option" where
  \<comment> \<open>\<open>~signal()\<close>, then the destructor of the member \<open>connections\<close>; part_000 has
      no loop over the connections in \<open>~signal()\<close>\<close>
  "signal_dtor i k s =
     (let s1 = mark_tokens s
      in case (case i of Main \<Rightarrow> unlink_all k s1 | Alt \<Rightarrow> Some s1) of
           None \<Rightarrow> None
         | Some s2 \<Rightarrow> map_option (\<lambda>s3. s3\<lparr>alive := False\<rparr>) (clear k fake s2))"

subsection \<open>Emission\<close>

definition push_token :: "state \<Rightarrow> state" where
  \<comment> \<open>\<open>iteration_token tok(this)\<close>: \<open>current(sig->connections.begin()),
      next(sig->top_token), sig(sig)\<close>, then \<open>sig->top_token = this\<close>\<close>
  "push_token s =
     s\<lparr>tok := (tok s)(top s := \<lparr>tcur = begin_it s fake, tgone = False\<rparr>), top := Suc (top s)\<rparr>"

definition release_token :: "impl \<Rightarrow> nat \<Rightarrow> state \<Rightarrow> ub + state" where
  \<comment> \<open>signals.h, \<open>~iteration_token\<close>: \<open>if (sig != nullptr) sig->top_token = next\<close>;
      part_000, at the end of \<open>operator()\<close> and in its handler: \<open>top_token = tok.next\<close>\<close>
  "release_token i d s =
     (if i = Main \<and> tgone (tok s d) then Inr s
      else if alive s then Inr (s\<lparr>top := d\<rparr>)
      else Inl UseAfterFree)"

definition leave :: "impl \<Rightarrow> nat \<Rightarrow> outcome \<Rightarrow> state \<Rightarrow> (outcome \<times> state) option" where
  \<comment> \<open>leaving \<open>operator()\<close> at the end of the loop, or with an exception in flight\<close>
  "leave i d out s =
     (case release_token i d s of Inl u \<Rightarrow> Some (Undefined u, s) | Inr s1 \<Rightarrow> Some (out, s1))"

text \<open>
  \<open>exec\<close> runs a sequence of actions; \<open>emit_loop i k d x\<close> is the loop of
  \<open>operator()\<close> for the token \<open>tok d\<close> and the argument \<open>x\<close>. A callback may emit the
  signal again without end, so they carry a bound \<open>k\<close> on the number of steps and yield
  \<open>None\<close> when it is used up. \<open>invoke\<close> is the call \<open>copy->slot(x)\<close>: calling an
  empty \<open>std::function\<close> throws \<open>std::bad_function_call\<close>.
\<close>

fun exec :: "impl \<Rightarrow> nat \<Rightarrow> action list \<Rightarrow> state \<Rightarrow> (outcome \<times> state) option"
and invoke :: "impl \<Rightarrow> nat \<Rightarrow> addr \<Rightarrow> nat \<Rightarrow> state \<Rightarrow> (outcome \<times> state) option"
and emit_loop :: "impl \<Rightarrow> nat \<Rightarrow> nat \<Rightarrow> nat \<Rightarrow> state \<Rightarrow> (outcome \<times> state) option"
where
  "exec i 0 acts s = None"
| "exec i (Suc k) [] s = Some (Returned, s)"
| "exec i (Suc k) (Throw # acts) s = Some (Threw UserException, s)"
| "exec i (Suc k) (Emit x # acts) s =
     (if \<not> alive s then Some (Undefined UseAfterFree, s)
      else case emit_loop i k (top s) x (push_token s) of
             None \<Rightarrow> None
           | Some (out, s1) \<Rightarrow> if out = Returned then exec i k acts s1 else Some (out, s1))"
| "exec i (Suc k) (Destroy # acts) s =
     (if \<not> alive s then Some (Undefined UseAfterFree, s)
      else case signal_dtor i k s of
             None \<Rightarrow> None
           | Some s1 \<Rightarrow> exec i k acts s1)"
| "exec i (Suc k) (a # acts) s =
     (case step i a s of
        Inl u \<Rightarrow> Some (Undefined u, s)
      | Inr s1 \<Rightarrow> exec i k acts s1)"
| "invoke i 0 c x s = None"
| "invoke i (Suc k) c x s =
     (case cslot s c of
        None \<Rightarrow> Some (Threw BadFunctionCall, s)
      | Some (f, body) \<Rightarrow> exec i k body (s\<lparr>trace := trace s @ [(c, f, x)]\<rparr>))"
| "emit_loop i 0 d x s = None"
| "emit_loop i (Suc k) d x s =
     (if tcur (tok s d) = end_it fake then leave i d Returned s
      else
        let copy = tcur (tok s d);
            s1 = s\<lparr>tok := (tok s)(d := (tok s d)\<lparr>tcur := nxt s copy\<rparr>)\<rparr>
        in case invoke i k copy x s1 of
             None \<Rightarrow> None
           | Some (out, s2) \<Rightarrow>
               (case out of
                  Returned \<Rightarrow>
                    if tgone (tok s2 d) then Some (Returned, s2) else emit_loop i k d x s2
                | Threw e \<Rightarrow> leave i d (Threw e) s2
                | Undefined u \<Rightarrow> Some (Undefined u, s2)))"

definition emit :: "impl \<Rightarrow> nat \<Rightarrow> nat \<Rightarrow> state \<Rightarrow> (outcome \<times> state) option" where
  \<comment> \<open>\<open>operator()(x)\<close>\<close>
  "emit i k x s =
     (if \<not> alive s then Some (Undefined UseAfterFree, s)
      else emit_loop i k (top s) x (push_token s))"

definition state0 :: state where
  \<comment> \<open>a signal just constructed, no connection object linked, no emission running\<close>
  "state0 = \<lparr>nxt = (\<lambda>a. a), prv = (\<lambda>a. a), csig = (\<lambda>a. Uninit), cslot = (\<lambda>a. None),
     tok = (\<lambda>n. \<lparr>tcur = fake, tgone = False\<rparr>), top = 0, alive = True, trace = []\<rparr>"

subsection \<open>Notions used in the statements\<close>

definition signal_holds :: "state \<Rightarrow> addr list \<Rightarrow> bool" where
  \<comment> \<open>the signal exists and its list holds exactly the connections \<open>xs\<close>, in this
      order, each with \<open>sig\<close> pointing to the signal\<close>
  "signal_holds s xs = (ring s fake xs \<and> alive s \<and> (\<forall>y\<in>set xs. csig s y = Sig))"

definition plain :: "state \<Rightarrow> addr \<Rightarrow> bool" where
  \<comment> \<open>the callback of \<open>y\<close> does nothing to the signal or to any connection\<close>
  "plain s y = (\<exists>f. cslot s y = Some (f, []))"

definition self_disconnecting :: "state \<Rightarrow> addr \<Rightarrow> bool" where
  \<comment> \<open>the callback of \<open>y\<close> disconnects \<open>y\<close> itself\<close>
  "self_disconnecting s y = (\<exists>f. cslot s y = Some (f, [Disconnect y]))"

definition event :: "state \<Rightarrow> nat \<Rightarrow> addr \<Rightarrow> addr \<times> nat \<times> nat" where
  \<comment> \<open>the entry of the trace for one call of the callback of \<open>y\<close> with argument \<open>x\<close>\<close>
  "event s x y = (y, (case cslot s y of Some (f, body) \<Rightarrow> f | None \<Rightarrow> 0), x)"

definition connected :: "addr \<Rightarrow> slot_t \<Rightarrow> state \<Rightarrow> state" where
  \<comment> \<open>the state after \<open>connection c = sig.connect(f)\<close>\<close>
  "connected c f s = (case connect c f s of Inr s' \<Rightarrow> s' | Inl u \<Rightarrow> s)"

definition three_connected :: "action list \<Rightarrow> state" where
  \<comment> \<open>a new signal after \<open>connect\<close> for the connections 2, 3 and 4, in this order;
      the callback of 3 has the given body, the other two do nothing\<close>
  "three_connected body =
     connected 4 (4, []) (connected 3 (3, body) (connected 2 (2, []) state0))"

subsection \<open>Notions for comparing the two source files\<close>

definition consistent :: "'a heap_scheme \<Rightarrow> bool" where
  \<comment> \<open>\<open>node.next.prev == node\<close> and \<open>node.prev.next == node\<close> for every node\<close>
  "consistent h = (\<forall>a. prv h (nxt h a) = a \<and> nxt h (prv h a) = a)"

fun destroy_free :: "action \<Rightarrow> bool" where
  \<comment> \<open>the action does not destroy the signal, nor does a callback it connects\<close>
  "destroy_free Destroy = False"
| "destroy_free (Connect c f body) = list_all destroy_free body"
| "destroy_free a = True"

definition undestroyed :: "state \<Rightarrow> bool" where
  \<comment> \<open>the signal exists, the chain is consistent, no token is marked, and no callback
      held by a connection destroys the signal\<close>
  "undestroyed s =
     (alive s \<and> consistent s \<and> (\<forall>n. \<not> tgone (tok s n))
      \<and> (\<forall>c f body. cslot s c = Some (f, body) \<longrightarrow> list_all destroy_free body))"

definition observable :: "state \<Rightarrow> state" where
  \<comment> \<open>the state without the field \<open>sig\<close> of the connections that are not linked, which
      no function reads; everything else is kept: the chain, the callbacks, the tokens,
      \<open>top_token\<close> and the trace\<close>
  "observable s =
     s\<lparr>csig := (\<lambda>c. if c \<noteq> fake \<and> is_linked s c then csig s c else Uninit)\<rparr>"

definition sim :: "state \<Rightarrow> state \<Rightarrow> bool" where
  "sim s t =
     (nxt t = nxt s \<and> prv t = prv s \<and> cslot t = cslot s \<and> tok t = tok s \<and> top t = top s
      \<and> alive t = alive s \<and> trace t = trace s
      \<and> (\<forall>c. c \<noteq> fake \<longrightarrow> is_linked s c \<longrightarrow> csig t c = csig s c))"

definition sim_step :: "ub + state \<Rightarrow> ub + state \<Rightarrow> bool" where
  "sim_step a b =
     (case a of
        Inl u \<Rightarrow> b = Inl u
      | Inr s \<Rightarrow> (case b of Inl v \<Rightarrow> False | Inr t \<Rightarrow> sim s t \<and> undestroyed s))"

definition sim_res ::
  "(outcome \<times> state) option \<Rightarrow> (outcome \<times> state) option \<Rightarrow> bool" where
  "sim_res a b =
     (case a of
        None \<Rightarrow> b = None
      | Some (out, s) \<Rightarrow>
          (case b of None \<Rightarrow> False
           | Some (out', t) \<Rightarrow> out' = out \<and> sim s t \<and> undestroyed s))"

section \<open>Facts about the circular chain\<close>

lemma chain_append [simp]:
  "chain h a (xs @ y # ys) b \<longleftrightarrow> chain h a xs y \<and> chain h y ys b"
  by (induction xs arbitrary: a) auto

lemma chain_frame:
  "chain h a xs b \<Longrightarrow> \<forall>x\<in>set (a # xs). nxt h' x = nxt h x
   \<Longrightarrow> \<forall>x\<in>set (xs @ [b]). prv h' x = prv h x \<Longrightarrow> chain h' a xs b"
  by (induction xs arbitrary: a) auto

lemma chain_next: "chain h a xs b \<Longrightarrow> nxt h a = hd (xs @ [b])"
  by (cases xs) auto

lemma chain_prev: "chain h a xs b \<Longrightarrow> prv h b = last (a # xs)"
  by (induction xs arbitrary: a) auto

lemma unlink_nxt: "nxt (unlink x h) = (nxt h)(prv h x := nxt h x, x := x)"
  by (simp add: unlink_def set_next_def set_prev_def Let_def)

lemma unlink_prv: "prv (unlink x h) = (prv h)(nxt h x := prv h x, x := x)"
  by (simp add: unlink_def set_next_def set_prev_def Let_def)

lemma ring_next: "ring h L (us @ x # vs) \<Longrightarrow> nxt h x = hd (vs @ [L])"
  by (simp add: ring_def chain_next)

lemma ring_prev: "ring h L (us @ x # vs) \<Longrightarrow> prv h x = last (L # us)"
  using chain_prev [of h L us x] by (simp add: ring_def del: last.simps)

lemma ring_begin: "ring h L xs \<Longrightarrow> nxt h L = hd (xs @ [L])"
  by (simp add: ring_def chain_next)

lemma ring_back: "ring h L xs \<Longrightarrow> prv h L = last (L # xs)"
  using chain_prev [of h L xs L] by (simp add: ring_def del: last.simps)

lemma ring_linked: "ring h L xs \<Longrightarrow> x \<in> set xs \<Longrightarrow> is_linked h x"
proof -
  assume r: "ring h L xs" and "x \<in> set xs"
  then obtain us vs where xs: "xs = us @ x # vs" by (auto simp: in_set_conv_decomp)
  with r have "nxt h x = hd (vs @ [L])" by (simp add: ring_next)
  moreover have "hd (vs @ [L]) \<noteq> x" using r xs by (cases vs) (auto simp: ring_def)
  ultimately show ?thesis by (simp add: is_linked_def)
qed

lemma ring_unlink:
  assumes "ring h L (us @ x # vs)"
  shows "ring (unlink x h) L (us @ vs)"
proof -
  from assms have d: "distinct (L # us @ x # vs)"
    and c1: "chain h L us x" and c2: "chain h x vs L"
    by (simp_all add: ring_def)
  have p: "prv h x = last (L # us)" using c1 by (rule chain_prev)
  have n: "nxt h x = hd (vs @ [L])" using c2 by (rule chain_next)
  have pm: "prv h x \<in> set (L # us)" unfolding p by (rule last_in_set) simp
  have nm: "nxt h x \<in> set (vs @ [L])" unfolding n by (rule hd_in_set) simp
  have left: "chain (unlink x h) L us' q" if "us = us' @ [q]" for us' q
  proof (rule chain_frame)
    show "chain h L us' q" using c1 that by simp
    have "prv h x = q" using p that by simp
    then show "\<forall>y\<in>set (L # us'). nxt (unlink x h) y = nxt h y"
      using d that by (auto simp: unlink_nxt)
    show "\<forall>y\<in>set (us' @ [q]). prv (unlink x h) y = prv h y"
      using d nm that by (auto simp: unlink_prv)
  qed
  have right: "chain (unlink x h) m vs' L" if "vs = m # vs'" for m vs'
  proof (rule chain_frame)
    show "chain h m vs' L" using c2 that by simp
    show "\<forall>y\<in>set (m # vs'). nxt (unlink x h) y = nxt h y"
      using d pm that by (auto simp: unlink_nxt)
    have "nxt h x = m" using n that by simp
    then show "\<forall>y\<in>set (vs' @ [L]). prv (unlink x h) y = prv h y"
      using d that by (auto simp: unlink_prv)
  qed
  have "chain (unlink x h) L (us @ vs) L"
  proof (cases vs)
    case Nil
    show ?thesis
    proof (cases us rule: rev_cases)
      case Nil
      with \<open>vs = []\<close> d p n show ?thesis by (simp add: unlink_nxt unlink_prv)
    next
      case (snoc us' q)
      with left [OF snoc] \<open>vs = []\<close> d p n show ?thesis by (simp add: unlink_nxt unlink_prv)
    qed
  next
    case (Cons m vs')
    show ?thesis
    proof (cases us rule: rev_cases)
      case Nil
      with Cons d p n right [OF Cons] show ?thesis by (simp add: unlink_nxt unlink_prv)
    next
      case (snoc us' q)
      with left [OF snoc] right [OF Cons] Cons d p n show ?thesis
        by (simp add: unlink_nxt unlink_prv)
    qed
  qed
  with d show ?thesis by (simp add: ring_def)
qed

lemma unlink_unlinks: "\<not> is_linked (unlink x h) x"
  by (simp add: is_linked_def unlink_nxt unlink_prv)

lemma push_front_nxt: "nxt (push_front L n h) = (nxt h)(n := nxt h L, L := n)"
  by (simp add: push_front_def set_next_def set_prev_def Let_def)

lemma push_front_prv: "prv (push_front L n h) = (prv h)(nxt h L := n, n := L)"
  by (simp add: push_front_def set_next_def set_prev_def Let_def)

lemma ring_push_front:
  assumes "ring h L xs" and "n \<notin> set (L # xs)"
  shows "ring (push_front L n h) L (n # xs)"
proof -
  from assms have d: "distinct (L # n # xs)" and c: "chain h L xs L"
    by (auto simp: ring_def)
  have b: "nxt h L = hd (xs @ [L])" using c by (rule chain_next)
  have "chain (push_front L n h) n xs L"
  proof (cases xs)
    case Nil
    with d b show ?thesis by (simp add: push_front_nxt push_front_prv)
  next
    case (Cons m xs')
    have "chain (push_front L n h) m xs' L"
    proof (rule chain_frame)
      show "chain h m xs' L" using c Cons by simp
      show "\<forall>y\<in>set (m # xs'). nxt (push_front L n h) y = nxt h y"
        using d Cons by (auto simp: push_front_nxt)
      show "\<forall>y\<in>set (xs' @ [L]). prv (push_front L n h) y = prv h y"
        using d b Cons by (auto simp: push_front_prv)
    qed
    with Cons d b show ?thesis by (simp add: push_front_nxt push_front_prv)
  qed
  with d show ?thesis by (simp add: ring_def push_front_nxt push_front_prv)
qed

lemma forward_chain:
  "chain h a xs L \<Longrightarrow> L \<notin> set xs \<Longrightarrow> length xs < k \<Longrightarrow> forward k h L (nxt h a) = Some xs"
proof (induction xs arbitrary: a k)
  case Nil
  then show ?case by (cases k) (simp_all add: end_it_def)
next
  case (Cons x xs)
  then show ?case by (cases k) (auto simp: end_it_def)
qed

lemma chain_heap_eq:
  "nxt h' = nxt h \<Longrightarrow> prv h' = prv h \<Longrightarrow> chain h' a xs b = chain h a xs b"
  by (induction xs arbitrary: a) auto

lemma ring_heap_eq:
  "nxt h' = nxt h \<Longrightarrow> prv h' = prv h \<Longrightarrow> ring h' L xs = ring h L xs"
  using chain_heap_eq [of h' h L xs L] by (simp add: ring_def)

lemma ring_fields [simp]:
  "ring (s\<lparr>csig := g\<rparr>) L xs = ring s L xs"
  "ring (s\<lparr>cslot := c\<rparr>) L xs = ring s L xs"
  "ring (s\<lparr>tok := t\<rparr>) L xs = ring s L xs"
  "ring (s\<lparr>top := n\<rparr>) L xs = ring s L xs"
  "ring (s\<lparr>alive := b\<rparr>) L xs = ring s L xs"
  "ring (s\<lparr>trace := tr\<rparr>) L xs = ring s L xs"
  by (rule ring_heap_eq; simp)+

lemma unlink_other:
  "z \<noteq> x \<Longrightarrow> z \<noteq> prv h x \<Longrightarrow> nxt (unlink x h) z = nxt h z"
  "z \<noteq> x \<Longrightarrow> z \<noteq> nxt h x \<Longrightarrow> prv (unlink x h) z = prv h z"
  by (simp_all add: unlink_nxt unlink_prv)

lemma ring_neighbours:
  assumes "ring h L (us @ x # vs)"
  shows "nxt h x \<in> set (L # us @ x # vs)" and "prv h x \<in> set (L # us @ x # vs)"
proof -
  have "nxt h x = hd (vs @ [L])" using assms by (rule ring_next)
  moreover have "hd (vs @ [L]) \<in> set (vs @ [L])" by (rule hd_in_set) simp
  ultimately show "nxt h x \<in> set (L # us @ x # vs)" by auto
  have "prv h x = last (L # us)" using assms by (rule ring_prev)
  moreover have "last (L # us) \<in> set (L # us)" by (rule last_in_set) simp
  ultimately show "prv h x \<in> set (L # us @ x # vs)" by auto
qed

lemma ring_list_element:
  assumes "ring h L xs" and "c \<notin> set (L # xs)"
  shows "ring (list_element c h) L xs"
proof -
  have "chain (list_element c h) L xs L"
  proof (rule chain_frame)
    show "chain h L xs L" using assms(1) by (simp add: ring_def)
    show "\<forall>y\<in>set (L # xs). nxt (list_element c h) y = nxt h y"
      using assms(2) by (auto simp: list_element_def set_next_def set_prev_def)
    show "\<forall>y\<in>set (xs @ [L]). prv (list_element c h) y = prv h y"
      using assms(2) by (auto simp: list_element_def set_next_def set_prev_def)
  qed
  then show ?thesis using assms(1) by (simp add: ring_def)
qed

lemma consistent_iff: "consistent h \<Longrightarrow> nxt h a = b \<longleftrightarrow> prv h b = a"
  by (auto simp: consistent_def)

lemma consistent_unlink:
  assumes "consistent h"
  shows "consistent (unlink c h)"
proof -
  have j: "prv h (nxt h a) = a" "nxt h (prv h a) = a" for a
    using assms by (simp_all add: consistent_def)
  have i: "nxt h a = nxt h b \<longleftrightarrow> a = b" "prv h a = prv h b \<longleftrightarrow> a = b" for a b
    using j by metis+
  show ?thesis
    unfolding consistent_def unlink_nxt unlink_prv
    using j i by (auto simp: fun_upd_def) (metis+)?
qed

lemma insert_node_nxt:
  "nxt (insert_node pos n h) = (nxt h)(prv h (nxt h (prv h pos)) := n, n := nxt h (prv h pos))"
  by (simp add: insert_node_def non_const_transform_def set_next_def set_prev_def Let_def)

lemma insert_node_prv:
  "prv (insert_node pos n h)
   = (prv h)(n := prv h (nxt h (prv h pos)), nxt h (prv h pos) := n)"
  by (simp add: insert_node_def non_const_transform_def set_next_def set_prev_def Let_def)

lemma consistent_push_front:
  assumes "consistent h" and "\<not> is_linked h n" and "n \<noteq> L"
  shows "consistent (push_front L n h)"
proof -
  have j: "prv h (nxt h a) = a" "nxt h (prv h a) = a" for a
    using assms by (simp_all add: consistent_def)
  have i: "nxt h a = nxt h b \<longleftrightarrow> a = b" "prv h a = prv h b \<longleftrightarrow> a = b" for a b
    using j by metis+
  have s: "nxt h n = n" "prv h n = n" using assms(2) by (simp_all add: is_linked_def)
  show ?thesis
    unfolding consistent_def push_front_nxt push_front_prv
    using j i s assms(3) by (auto simp: fun_upd_def) (metis+)?
qed

lemma consistent_insert_node:
  assumes "consistent h" and "\<not> is_linked h n" and "n \<noteq> pos"
  shows "consistent (insert_node pos n h)"
proof -
  have j: "prv h (nxt h a) = a" "nxt h (prv h a) = a" for a
    using assms by (simp_all add: consistent_def)
  have i: "nxt h a = nxt h b \<longleftrightarrow> a = b" "prv h a = prv h b \<longleftrightarrow> a = b" for a b
    using j by metis+
  have s: "nxt h n = n" "prv h n = n" using assms(2) by (simp_all add: is_linked_def)
  show ?thesis
    unfolding consistent_def insert_node_nxt insert_node_prv
    using j i s assms(3) by (auto simp: fun_upd_def) (metis+)?
qed

lemma linked_after_unlink:
  assumes "consistent h" and "is_linked (unlink c h) z"
  shows "is_linked h z \<and> z \<noteq> c"
proof -
  have j: "prv h (nxt h a) = a" "nxt h (prv h a) = a" for a
    using assms(1) by (simp_all add: consistent_def)
  show ?thesis
    using assms(2) j unfolding is_linked_def unlink_nxt unlink_prv
    by (auto simp: fun_upd_def split: if_splits) (metis+)?
qed

lemma linked_after_push_front:
  assumes "consistent h" and "is_linked (push_front L n h) z" and "z \<noteq> n" and "z \<noteq> L"
  shows "is_linked h z"
proof -
  have j: "prv h (nxt h a) = a" "nxt h (prv h a) = a" for a
    using assms(1) by (simp_all add: consistent_def)
  show ?thesis
    using assms(2,3,4) j unfolding is_linked_def push_front_nxt push_front_prv
    by (auto simp: fun_upd_def split: if_splits) (metis+)?
qed

lemma linked_after_insert_node:
  assumes "consistent h" and "is_linked (insert_node pos n h) z" and "z \<noteq> n"
    and "is_linked h pos"
  shows "is_linked h z"
proof -
  have j: "prv h (nxt h a) = a" "nxt h (prv h a) = a" for a
    using assms(1) by (simp_all add: consistent_def)
  show ?thesis
    using assms(2,3,4) j unfolding is_linked_def insert_node_nxt insert_node_prv
    by (auto simp: fun_upd_def split: if_splits) (metis+)?
qed

lemma list_element_unlinked: "\<not> is_linked h c \<Longrightarrow> list_element c h = h"
  by (simp add: is_linked_def list_element_def set_next_def set_prev_def fun_upd_idem)

lemma ring_insert_node:
  assumes "ring h L (us @ x # vs)" and "n \<notin> set (L # us @ x # vs)"
  shows "ring (insert_node x n h) L (us @ n # x # vs)"
proof -
  from assms have d: "distinct (L # us @ n # x # vs)"
    and c1: "chain h L us x" and c2: "chain h x vs L"
    by (auto simp: ring_def)
  have p: "prv h x = last (L # us)" using c1 by (rule chain_prev)
  have q: "nxt h (prv h x) = x"
    using c1 by (cases us rule: rev_cases) auto
  have pm: "prv h x \<in> set (L # us)" unfolding p by (rule last_in_set) simp
  have nx: "nxt (insert_node x n h) = (nxt h)(prv h x := n, n := x)"
    by (simp add: insert_node_nxt q)
  have pv: "prv (insert_node x n h) = (prv h)(n := prv h x, x := n)"
    by (simp add: insert_node_prv q)
  have right: "chain (insert_node x n h) x vs L"
  proof (rule chain_frame [OF c2])
    show "\<forall>y\<in>set (x # vs). nxt (insert_node x n h) y = nxt h y"
      using d pm by (auto simp: nx)
    show "\<forall>y\<in>set (vs @ [L]). prv (insert_node x n h) y = prv h y"
      using d by (auto simp: pv)
  qed
  have left: "chain (insert_node x n h) L us n"
  proof (cases us rule: rev_cases)
    case Nil
    with d p show ?thesis by (simp add: nx pv)
  next
    case (snoc us' z)
    have "chain (insert_node x n h) L us' z"
    proof (rule chain_frame)
      show "chain h L us' z" using c1 snoc by simp
      have "prv h x = z" using p snoc by simp
      then show "\<forall>y\<in>set (L # us'). nxt (insert_node x n h) y = nxt h y"
        using d snoc by (auto simp: nx)
      show "\<forall>y\<in>set (us' @ [z]). prv (insert_node x n h) y = prv h y"
        using d snoc by (auto simp: pv)
    qed
    with snoc d p show ?thesis by (simp add: nx pv)
  qed
  have "chain (insert_node x n h) n [] x" using d by (simp add: nx pv)
  with left right have "chain (insert_node x n h) L (us @ n # x # vs) L" by simp
  with d show ?thesis by (simp add: ring_def)
qed

lemma consistent_fields [simp]:
  "consistent (s\<lparr>csig := g\<rparr>) = consistent s"
  "consistent (s\<lparr>cslot := c\<rparr>) = consistent s"
  "consistent (s\<lparr>tok := t\<rparr>) = consistent s"
  "consistent (s\<lparr>top := n\<rparr>) = consistent s"
  "consistent (s\<lparr>alive := b\<rparr>) = consistent s"
  "consistent (s\<lparr>trace := tr\<rparr>) = consistent s"
  by (simp_all add: consistent_def)

lemma is_linked_fields [simp]:
  "is_linked (s\<lparr>csig := g\<rparr>) = is_linked s"
  "is_linked (s\<lparr>cslot := c\<rparr>) = is_linked s"
  "is_linked (s\<lparr>tok := t\<rparr>) = is_linked s"
  "is_linked (s\<lparr>top := n\<rparr>) = is_linked s"
  "is_linked (s\<lparr>alive := b\<rparr>) = is_linked s"
  "is_linked (s\<lparr>trace := tr\<rparr>) = is_linked s"
  by (auto simp: is_linked_def intro!: ext)

lemma insert_node_fields:
  "csig (insert_node p n s) = csig s" "cslot (insert_node p n s) = cslot s"
  "tok (insert_node p n s) = tok s" "top (insert_node p n s) = top s"
  "alive (insert_node p n s) = alive s" "trace (insert_node p n s) = trace s"
  by (simp_all add: insert_node_def set_next_def set_prev_def Let_def)

section \<open>Unlinked connections\<close>

lemma unlink_unlinked: "\<not> is_linked h a \<Longrightarrow> unlink a h = h"
  by (simp add: is_linked_def unlink_def set_next_def set_prev_def fun_upd_idem)

lemma connection_default_unlinked:
  "\<not> is_linked (connection_default c s) c \<and> csig (connection_default c s) c = Uninit"
  by (simp add: connection_default_def is_linked_def list_element_def set_next_def set_prev_def)

text \<open>
  C10: for a connection that is not linked, \<open>disconnect()\<close> and the destructor leave
  the whole state as it is and return normally, whatever the field \<open>sig\<close> holds (also
  the indeterminate value of a default-constructed connection) and whether or not the
  signal still exists; so does any number of such calls in a row.
\<close>

theorem disconnect_unlinked_noop:
  assumes "\<not> is_linked s c" and "c \<noteq> fake"
  shows "disconnect i c s = Inr s \<and> connection_dtor i c s = Inr s
         \<and> exec i (Suc n) (replicate n (Disconnect c)) s = Some (Returned, s)
         \<and> exec i (Suc n) (replicate n (Destruct c)) s = Some (Returned, s)"
  using assms
  by (induction n) (simp_all add: disconnect_def connection_dtor_def unlink_unlinked)

theorem disconnect_unlinked_noop_witness:
  "csig (connection_default 1 state0) 1 = Uninit
   \<and> disconnect Main 1 (connection_default 1 state0) = Inr (connection_default 1 state0)
   \<and> connection_dtor Main 1 (connection_default 1 state0) = Inr (connection_default 1 state0)
   \<and> exec Main (Suc 3) (replicate 3 (Disconnect 1)) (connection_default 1 state0)
       = Some (Returned, connection_default 1 state0)
   \<and> exec Main (Suc 3) (replicate 3 (Destruct 1)) (connection_default 1 state0)
       = Some (Returned, connection_default 1 state0)"
proof -
  have l: "\<not> is_linked (connection_default 1 state0) 1"
    by (simp add: connection_default_unlinked)
  have f: "(1::addr) \<noteq> fake"
    by (simp add: fake_def)
  show ?thesis
    using disconnect_unlinked_noop [OF l f, of Main 3] connection_default_unlinked [of 1 state0]
    by simp
qed

section \<open>Disconnecting the connection a cursor points at\<close>

text \<open>
  \<open>disconnect\<close> calls \<open>unlink()\<close> before it walks the tokens, and \<open>unlink()\<close> ends
  with \<open>next = this\<close>. So \<open>++tok->current\<close>, which reads \<open>current->next\<close>, leaves a
  cursor that points at the disconnected connection where it is: no token changes.
\<close>

lemma disconnect_keeps_cursors: "disconnect i c s = Inr s' \<Longrightarrow> tok s' = tok s"
  by (cases i) (auto simp: disconnect_def Let_def advance_tokens_def unlink_def set_next_def
      set_prev_def split: if_splits intro!: ext)

text \<open>
  C1, at a failing input: the connections 3, 2, 1 are linked in this order and the callback
  of 3 disconnects 2, the next in line. The cursor of the running emission stays at 2,
  the emission then calls the emptied \<open>slot\<close> of 2, \<open>std::bad_function_call\<close> leaves
  \<open>operator()\<close>, and connection 1, which is still in the list, is never invoked. Both
  source files behave so.
\<close>

theorem disconnect_next_aborts_emission:
  "map_option (\<lambda>(out, s). (out, trace s, tcur (tok s 0), nxt s 2, to_list 10 s fake))
     (exec Main 20 [Connect 1 1 [], Connect 2 2 [], Connect 3 3 [Disconnect 2], Emit 7] state0)
     = Some (Threw BadFunctionCall, [(3, 3, 7)], 2, 2, Some [3, 1])
   \<and> map_option (\<lambda>(out, s). (out, trace s, tcur (tok s 0), nxt s 2, to_list 10 s fake))
     (exec Alt 20 [Connect 1 1 [], Connect 2 2 [], Connect 3 3 [Disconnect 2], Emit 7] state0)
     = Some (Threw BadFunctionCall, [(3, 3, 7)], 2, 2, Some [3, 1])"
  by code_simp

section \<open>Emission over plain and self-disconnecting callbacks\<close>

lemma exec_Nil: "0 < k \<Longrightarrow> exec i k [] s = Some (Returned, s)"
  by (cases k) simp_all

lemma exec_Throw: "0 < k \<Longrightarrow> exec i k (Throw # acts) s = Some (Threw UserException, s)"
  by (cases k) simp_all

lemma exec_Disconnect:
  assumes "0 < k"
  shows "exec i k (Disconnect c # acts) s =
     (case step i (Disconnect c) s of Inl u \<Rightarrow> Some (Undefined u, s)
      | Inr s1 \<Rightarrow> exec i (k - 1) acts s1)"
proof (cases k)
  case 0
  with assms show ?thesis by simp
next
  case (Suc k')
  show ?thesis unfolding Suc diff_Suc_1 by (rule exec.simps)
qed

lemma invoke_unfold:
  assumes "0 < k"
  shows "invoke i k c x s =
     (case cslot s c of None \<Rightarrow> Some (Threw BadFunctionCall, s)
      | Some (f, body) \<Rightarrow> exec i (k - 1) body (s\<lparr>trace := trace s @ [(c, f, x)]\<rparr>))"
proof (cases k)
  case 0
  with assms show ?thesis by simp
next
  case (Suc k')
  show ?thesis unfolding Suc diff_Suc_1 by (rule invoke.simps)
qed

lemma emit_loop_unfold:
  assumes "0 < k"
  shows "emit_loop i k d x s =
     (if tcur (tok s d) = end_it fake then leave i d Returned s
      else
        let copy = tcur (tok s d);
            s1 = s\<lparr>tok := (tok s)(d := (tok s d)\<lparr>tcur := nxt s copy\<rparr>)\<rparr>
        in case invoke i (k - 1) copy x s1 of
             None \<Rightarrow> None
           | Some (out, s2) \<Rightarrow>
               (case out of
                  Returned \<Rightarrow>
                    if tgone (tok s2 d) then Some (Returned, s2) else emit_loop i (k - 1) d x s2
                | Threw e \<Rightarrow> leave i d (Threw e) s2
                | Undefined u \<Rightarrow> Some (Undefined u, s2)))"
proof (cases k)
  case 0
  with assms show ?thesis by simp
next
  case (Suc k')
  show ?thesis unfolding Suc diff_Suc_1 by (rule emit_loop.simps)
qed

lemma advance_tokens_unlinked: "nxt s c = c \<Longrightarrow> advance_tokens c s = s"
proof -
  assume n: "nxt s c = c"
  have "(\<lambda>n. if n < top s \<and> tcur (tok s n) \<noteq> end_it fake \<and> tcur (tok s n) = c
             then (tok s n)\<lparr>tcur := nxt s (tcur (tok s n))\<rparr> else tok s n) = tok s"
    using n by (auto intro!: ext)
  then show ?thesis by (simp add: advance_tokens_def)
qed

lemma unlink_fields:
  "csig (unlink c s) = csig s" "cslot (unlink c s) = cslot s" "tok (unlink c s) = tok s"
  "top (unlink c s) = top s" "alive (unlink c s) = alive s" "trace (unlink c s) = trace s"
  by (simp_all add: unlink_def set_next_def set_prev_def Let_def)

lemma disconnect_linked:
  assumes "is_linked s c" and "csig s c = Sig" and "alive s"
  shows "disconnect i c s = Inr ((unlink c s)\<lparr>cslot := (cslot s)(c := None),
           csig := (case i of Main \<Rightarrow> (csig s)(c := Null) | Alt \<Rightarrow> csig s)\<rparr>)"
proof -
  have "advance_tokens c ((unlink c s)\<lparr>cslot := (cslot s)(c := None)\<rparr>)
        = (unlink c s)\<lparr>cslot := (cslot s)(c := None)\<rparr>"
    by (rule advance_tokens_unlinked) (simp add: unlink_nxt)
  then show ?thesis using assms
    by (cases i) (simp_all add: disconnect_def Let_def unlink_fields)
qed

lemma emit_loop_plain:
  assumes "3 \<le> k" and "tcur (tok s d) = y" and "y \<noteq> fake" and "cslot s y = Some (f, [])"
    and "\<not> tgone (tok s d)"
  shows "emit_loop i k d x s = emit_loop i (k - 1) d x
     (s\<lparr>tok := (tok s)(d := (tok s d)\<lparr>tcur := nxt s y\<rparr>), trace := trace s @ [(y, f, x)]\<rparr>)"
proof -
  have "invoke i (k - 1) y x (s\<lparr>tok := (tok s)(d := (tok s d)\<lparr>tcur := nxt s y\<rparr>)\<rparr>)
        = Some (Returned, s\<lparr>tok := (tok s)(d := (tok s d)\<lparr>tcur := nxt s y\<rparr>),
             trace := trace s @ [(y, f, x)]\<rparr>)"
    using assms by (simp add: invoke_unfold exec_Nil)
  then show ?thesis
    using assms by (subst emit_loop_unfold) (simp_all add: end_it_def Let_def)
qed

lemma emit_loop_self_disconnect:
  assumes "4 \<le> k" and "tcur (tok s d) = y" and "y \<noteq> fake"
    and "cslot s y = Some (f, [Disconnect y])" and "\<not> tgone (tok s d)"
    and "is_linked s y" and "csig s y = Sig" and "alive s"
  shows "emit_loop i k d x s = emit_loop i (k - 1) d x
     ((unlink y s)\<lparr>tok := (tok s)(d := (tok s d)\<lparr>tcur := nxt s y\<rparr>),
        trace := trace s @ [(y, f, x)], cslot := (cslot s)(y := None),
        csig := (case i of Main \<Rightarrow> (csig s)(y := Null) | Alt \<Rightarrow> csig s)\<rparr>)"
proof -
  let ?s1 = "s\<lparr>tok := (tok s)(d := (tok s d)\<lparr>tcur := nxt s y\<rparr>), trace := trace s @ [(y, f, x)]\<rparr>"
  let ?s2 = "(unlink y s)\<lparr>tok := (tok s)(d := (tok s d)\<lparr>tcur := nxt s y\<rparr>),
        trace := trace s @ [(y, f, x)], cslot := (cslot s)(y := None),
        csig := (case i of Main \<Rightarrow> (csig s)(y := Null) | Alt \<Rightarrow> csig s)\<rparr>"
  have l: "is_linked ?s1 y" using assms(6) by (simp add: is_linked_def)
  have u: "unlink y ?s1 = (unlink y s)\<lparr>tok := (tok s)(d := (tok s d)\<lparr>tcur := nxt s y\<rparr>),
             trace := trace s @ [(y, f, x)]\<rparr>"
    by (simp add: unlink_def set_next_def set_prev_def Let_def)
  have "disconnect i y ?s1 = Inr ((unlink y ?s1)\<lparr>cslot := (cslot ?s1)(y := None),
           csig := (case i of Main \<Rightarrow> (csig ?s1)(y := Null) | Alt \<Rightarrow> csig ?s1)\<rparr>)"
    using l assms by (intro disconnect_linked) simp_all
  then have dis: "disconnect i y ?s1 = Inr ?s2"
    by (cases i) (simp_all add: u)
  have "exec i (k - 1 - 1) [Disconnect y] ?s1 = Some (Returned, ?s2)"
    using assms by (simp add: exec_Disconnect exec_Nil dis)
  then have "invoke i (k - 1) y x (s\<lparr>tok := (tok s)(d := (tok s d)\<lparr>tcur := nxt s y\<rparr>)\<rparr>)
        = Some (Returned, ?s2)"
    using assms by (simp add: invoke_unfold)
  then show ?thesis
    using assms by (subst emit_loop_unfold) (simp_all add: end_it_def Let_def unlink_fields)
qed

lemma emit_loop_steps:
  assumes "ring s fake (us @ ys @ zs)"
    and "tcur (tok s d) = hd (ys @ zs @ [fake])"
    and "\<forall>y\<in>set ys. plain s y \<or> self_disconnecting s y"
    and "\<forall>y\<in>set ys. csig s y = Sig"
    and "alive s" and "\<not> tgone (tok s d)"
    and "length ys + 3 \<le> k"
  shows "\<exists>s'. emit_loop i k d x s = emit_loop i (k - length ys) d x s'
      \<and> ring s' fake (us @ filter (plain s) ys @ zs)
      \<and> tcur (tok s' d) = hd (zs @ [fake]) \<and> \<not> tgone (tok s' d)
      \<and> alive s' \<and> top s' = top s
      \<and> trace s' = trace s @ map (event s x) ys
      \<and> (\<forall>z. \<not> (z \<in> set ys \<and> self_disconnecting s z) \<longrightarrow>
            cslot s' z = cslot s z \<and> csig s' z = csig s z)
      \<and> (\<forall>z. z \<notin> set (fake # us @ ys @ zs) \<longrightarrow> nxt s' z = nxt s z \<and> prv s' z = prv s z)
      \<and> (\<forall>y\<in>set ys. self_disconnecting s y \<longrightarrow> \<not> is_linked s' y \<and> cslot s' y = None)"
  using assms
proof (induction ys arbitrary: us s k)
  case Nil
  then show ?case by (intro exI [of _ s]) simp
next
  case (Cons y ys)
  have r: "ring s fake (us @ y # (ys @ zs))" using Cons.prems(1) by simp
  have d: "distinct (fake # us @ y # ys @ zs)" using r by (simp add: ring_def)
  have yf: "y \<noteq> fake" using d by auto
  have cur: "tcur (tok s d) = y" using Cons.prems(2) by simp
  have nx: "nxt s y = hd (ys @ zs @ [fake])" using ring_next [OF r] by simp
  have lk: "is_linked s y" using r by (rule ring_linked) simp
  have sg: "csig s y = Sig" using Cons.prems(4) by simp
  have k4: "4 \<le> k" using Cons.prems(7) by simp
  from Cons.prems(3) consider (p) "plain s y" | (sd) "self_disconnecting s y" by auto
  then show ?case
  proof cases
    case p
    then obtain f where f: "cslot s y = Some (f, [])" by (auto simp: plain_def)
    let ?s1 = "s\<lparr>tok := (tok s)(d := (tok s d)\<lparr>tcur := nxt s y\<rparr>),
                  trace := trace s @ [(y, f, x)]\<rparr>"
    have step: "emit_loop i k d x s = emit_loop i (k - 1) d x ?s1"
      using k4 cur yf f Cons.prems(6) by (intro emit_loop_plain) simp_all
    have same: "plain ?s1 = plain s" "self_disconnecting ?s1 = self_disconnecting s"
      "event ?s1 = event s"
      by (auto simp: plain_def self_disconnecting_def event_def intro!: ext)
    have "\<exists>s'. emit_loop i (k - 1) d x ?s1 = emit_loop i (k - 1 - length ys) d x s'
      \<and> ring s' fake ((us @ [y]) @ filter (plain ?s1) ys @ zs)
      \<and> tcur (tok s' d) = hd (zs @ [fake]) \<and> \<not> tgone (tok s' d)
      \<and> alive s' \<and> top s' = top ?s1
      \<and> trace s' = trace ?s1 @ map (event ?s1 x) ys
      \<and> (\<forall>z. \<not> (z \<in> set ys \<and> self_disconnecting ?s1 z) \<longrightarrow>
            cslot s' z = cslot ?s1 z \<and> csig s' z = csig ?s1 z)
      \<and> (\<forall>z. z \<notin> set (fake # (us @ [y]) @ ys @ zs) \<longrightarrow> nxt s' z = nxt ?s1 z \<and> prv s' z = prv ?s1 z)
      \<and> (\<forall>y\<in>set ys. self_disconnecting ?s1 y \<longrightarrow> \<not> is_linked s' y \<and> cslot s' y = None)"
    proof (rule Cons.IH)
      show "ring ?s1 fake ((us @ [y]) @ ys @ zs)" using r by simp
      show "tcur (tok ?s1 d) = hd (ys @ zs @ [fake])" using nx by simp
      show "\<forall>y\<in>set ys. plain ?s1 y \<or> self_disconnecting ?s1 y"
        using Cons.prems(3) by (simp add: same)
      show "\<forall>y\<in>set ys. csig ?s1 y = Sig" using Cons.prems(4) by simp
      show "alive ?s1" using Cons.prems(5) by simp
      show "\<not> tgone (tok ?s1 d)" using Cons.prems(6) by simp
      show "length ys + 3 \<le> k - 1" using Cons.prems(7) by simp
    qed
    then obtain s' where s': "emit_loop i (k - 1) d x ?s1 = emit_loop i (k - 1 - length ys) d x s'"
      "ring s' fake ((us @ [y]) @ filter (plain ?s1) ys @ zs)"
      "tcur (tok s' d) = hd (zs @ [fake])" "\<not> tgone (tok s' d)"
      "alive s'" "top s' = top ?s1"
      "trace s' = trace ?s1 @ map (event ?s1 x) ys"
      "\<forall>z. \<not> (z \<in> set ys \<and> self_disconnecting ?s1 z) \<longrightarrow>
            cslot s' z = cslot ?s1 z \<and> csig s' z = csig ?s1 z"
      "\<forall>z. z \<notin> set (fake # (us @ [y]) @ ys @ zs) \<longrightarrow> nxt s' z = nxt ?s1 z \<and> prv s' z = prv ?s1 z"
      "\<forall>y\<in>set ys. self_disconnecting ?s1 y \<longrightarrow> \<not> is_linked s' y \<and> cslot s' y = None"
      by blast
    have ev: "event s x y = (y, f, x)" using f by (simp add: event_def)
    have nsd: "\<not> self_disconnecting s y" using f by (simp add: self_disconnecting_def)
    show ?thesis
    proof (intro exI [of _ s'] conjI)
      show "emit_loop i k d x s = emit_loop i (k - length (y # ys)) d x s'"
        using step s'(1) by simp
      show "ring s' fake (us @ filter (plain s) (y # ys) @ zs)"
        using s'(2) p by (simp add: same)
      show "trace s' = trace s @ map (event s x) (y # ys)"
        using s'(7) ev by (simp add: same)
      show "\<forall>z. \<not> (z \<in> set (y # ys) \<and> self_disconnecting s z) \<longrightarrow>
            cslot s' z = cslot s z \<and> csig s' z = csig s z"
        using s'(8) by (auto simp: same)
      show "\<forall>z. z \<notin> set (fake # us @ (y # ys) @ zs) \<longrightarrow> nxt s' z = nxt s z \<and> prv s' z = prv s z"
        using s'(9) by simp
      show "\<forall>y'\<in>set (y # ys). self_disconnecting s y' \<longrightarrow> \<not> is_linked s' y' \<and> cslot s' y' = None"
        using s'(10) nsd by (simp add: same)
    qed (use s' in simp_all)
  next
    case sd
    then obtain f where f: "cslot s y = Some (f, [Disconnect y])"
      by (auto simp: self_disconnecting_def)
    let ?s2 = "(unlink y s)\<lparr>tok := (tok s)(d := (tok s d)\<lparr>tcur := nxt s y\<rparr>),
        trace := trace s @ [(y, f, x)], cslot := (cslot s)(y := None),
        csig := (case i of Main \<Rightarrow> (csig s)(y := Null) | Alt \<Rightarrow> csig s)\<rparr>"
    have step: "emit_loop i k d x s = emit_loop i (k - 1) d x ?s2"
      using k4 cur yf f Cons.prems(5,6) lk sg by (intro emit_loop_self_disconnect) simp_all
    have yn: "y \<notin> set ys" using d by auto
    have cs: "cslot ?s2 z = cslot s z" if "z \<noteq> y" for z using that by simp
    have cg: "csig ?s2 z = csig s z" if "z \<noteq> y" for z using that by (cases i) simp_all
    have same: "plain ?s2 z = plain s z" "self_disconnecting ?s2 z = self_disconnecting s z"
      "event ?s2 x z = event s x z" if "z \<in> set ys" for z
      using that yn cs [of z] by (auto simp: plain_def self_disconnecting_def event_def)
    have r2: "ring ?s2 fake (us @ ys @ zs)" using ring_unlink [OF r] by simp
    have "\<exists>s'. emit_loop i (k - 1) d x ?s2 = emit_loop i (k - 1 - length ys) d x s'
      \<and> ring s' fake (us @ filter (plain ?s2) ys @ zs)
      \<and> tcur (tok s' d) = hd (zs @ [fake]) \<and> \<not> tgone (tok s' d)
      \<and> alive s' \<and> top s' = top ?s2
      \<and> trace s' = trace ?s2 @ map (event ?s2 x) ys
      \<and> (\<forall>z. \<not> (z \<in> set ys \<and> self_disconnecting ?s2 z) \<longrightarrow>
            cslot s' z = cslot ?s2 z \<and> csig s' z = csig ?s2 z)
      \<and> (\<forall>z. z \<notin> set (fake # us @ ys @ zs) \<longrightarrow> nxt s' z = nxt ?s2 z \<and> prv s' z = prv ?s2 z)
      \<and> (\<forall>y\<in>set ys. self_disconnecting ?s2 y \<longrightarrow> \<not> is_linked s' y \<and> cslot s' y = None)"
    proof (rule Cons.IH)
      show "ring ?s2 fake (us @ ys @ zs)" by (rule r2)
      show "tcur (tok ?s2 d) = hd (ys @ zs @ [fake])" using nx by simp
      show "\<forall>y\<in>set ys. plain ?s2 y \<or> self_disconnecting ?s2 y"
        using Cons.prems(3) same by simp
      show "\<forall>y\<in>set ys. csig ?s2 y = Sig"
      proof
        fix z assume z: "z \<in> set ys"
        with yn have "z \<noteq> y" by auto
        then have "csig ?s2 z = csig s z" by (rule cg)
        also have "\<dots> = Sig" using Cons.prems(4) z by simp
        finally show "csig ?s2 z = Sig" .
      qed
      show "alive ?s2" using Cons.prems(5) by (simp add: unlink_fields)
      show "\<not> tgone (tok ?s2 d)" using Cons.prems(6) by simp
      show "length ys + 3 \<le> k - 1" using Cons.prems(7) by simp
    qed
    then obtain s' where s': "emit_loop i (k - 1) d x ?s2 = emit_loop i (k - 1 - length ys) d x s'"
      "ring s' fake (us @ filter (plain ?s2) ys @ zs)"
      "tcur (tok s' d) = hd (zs @ [fake])" "\<not> tgone (tok s' d)"
      "alive s'" "top s' = top ?s2"
      "trace s' = trace ?s2 @ map (event ?s2 x) ys"
      "\<forall>z. \<not> (z \<in> set ys \<and> self_disconnecting ?s2 z) \<longrightarrow>
            cslot s' z = cslot ?s2 z \<and> csig s' z = csig ?s2 z"
      "\<forall>z. z \<notin> set (fake # us @ ys @ zs) \<longrightarrow> nxt s' z = nxt ?s2 z \<and> prv s' z = prv ?s2 z"
      "\<forall>y\<in>set ys. self_disconnecting ?s2 y \<longrightarrow> \<not> is_linked s' y \<and> cslot s' y = None"
      by blast
    have ev: "event s x y = (y, f, x)" using f by (simp add: event_def)
    have np: "\<not> plain s y" using f by (simp add: plain_def)
    have fl: "filter (plain ?s2) ys = filter (plain s) ys"
      by (rule filter_cong) (simp_all add: same)
    have mp: "map (event ?s2 x) ys = map (event s x) ys"
      by (rule map_cong) (simp_all add: same)
    have yout: "y \<notin> set (fake # us @ ys @ zs)" using d by auto
    have yl: "\<not> is_linked s' y \<and> cslot s' y = None"
    proof -
      have "nxt s' y = nxt ?s2 y" "prv s' y = prv ?s2 y" using s'(9) yout by blast+
      then have "\<not> is_linked s' y" by (simp add: is_linked_def unlink_nxt unlink_prv)
      moreover have "cslot s' y = cslot ?s2 y" using s'(8) yn by blast
      then have "cslot s' y = None" by simp
      ultimately show ?thesis by simp
    qed
    have nb: "nxt s y \<in> set (fake # us @ y # ys @ zs)" "prv s y \<in> set (fake # us @ y # ys @ zs)"
      using ring_neighbours [OF r] by simp_all
    show ?thesis
    proof (intro exI [of _ s'] conjI)
      show "emit_loop i k d x s = emit_loop i (k - length (y # ys)) d x s'"
        using step s'(1) by simp
      show "ring s' fake (us @ filter (plain s) (y # ys) @ zs)"
        using s'(2) np by (simp add: fl)
      show "trace s' = trace s @ map (event s x) (y # ys)"
        using s'(7) ev by (simp add: mp unlink_fields)
      show "top s' = top s" using s'(6) by (simp add: unlink_fields)
      show "\<forall>z. \<not> (z \<in> set (y # ys) \<and> self_disconnecting s z) \<longrightarrow>
            cslot s' z = cslot s z \<and> csig s' z = csig s z"
      proof (intro allI impI)
        fix z assume z: "\<not> (z \<in> set (y # ys) \<and> self_disconnecting s z)"
        with sd have zy: "z \<noteq> y" by auto
        have "\<not> (z \<in> set ys \<and> self_disconnecting ?s2 z)" using z same(2) [of z] by auto
        then have "cslot s' z = cslot ?s2 z \<and> csig s' z = csig ?s2 z" using s'(8) by blast
        then show "cslot s' z = cslot s z \<and> csig s' z = csig s z"
          using cs [OF zy] cg [OF zy] by simp
      qed
      show "\<forall>z. z \<notin> set (fake # us @ (y # ys) @ zs) \<longrightarrow> nxt s' z = nxt s z \<and> prv s' z = prv s z"
      proof (intro allI impI)
        fix z assume z: "z \<notin> set (fake # us @ (y # ys) @ zs)"
        then have "z \<noteq> y" "z \<noteq> prv s y" "z \<noteq> nxt s y" using nb by auto
        then have "nxt ?s2 z = nxt s z" "prv ?s2 z = prv s z" by (simp_all add: unlink_other)
        moreover have "nxt s' z = nxt ?s2 z \<and> prv s' z = prv ?s2 z" using s'(9) z by auto
        ultimately show "nxt s' z = nxt s z \<and> prv s' z = prv s z" by simp
      qed
      show "\<forall>y'\<in>set (y # ys). self_disconnecting s y' \<longrightarrow> \<not> is_linked s' y' \<and> cslot s' y' = None"
        using s'(10) yl same by simp
    qed (use s' in simp_all)
  qed
qed

lemma emit_loop_end:
  assumes "0 < k" and "tcur (tok s d) = fake" and "\<not> tgone (tok s d)" and "alive s"
  shows "emit_loop i k d x s = Some (Returned, s\<lparr>top := d\<rparr>)"
  using assms by (simp add: emit_loop_unfold end_it_def leave_def release_token_def)

lemma emit_loop_throw:
  assumes "3 \<le> k" and "tcur (tok s d) = c" and "c \<noteq> fake" and "cslot s c = Some (f, [Throw])"
    and "\<not> tgone (tok s d)" and "alive s"
  shows "emit_loop i k d x s = Some (Threw UserException,
     s\<lparr>tok := (tok s)(d := (tok s d)\<lparr>tcur := nxt s c\<rparr>), trace := trace s @ [(c, f, x)],
       top := d\<rparr>)"
proof -
  have "invoke i (k - 1) c x (s\<lparr>tok := (tok s)(d := (tok s d)\<lparr>tcur := nxt s c\<rparr>)\<rparr>)
        = Some (Threw UserException, s\<lparr>tok := (tok s)(d := (tok s d)\<lparr>tcur := nxt s c\<rparr>),
             trace := trace s @ [(c, f, x)]\<rparr>)"
    using assms by (simp add: invoke_unfold exec_Throw)
  then show ?thesis
    using assms
    by (subst emit_loop_unfold) (simp_all add: end_it_def Let_def leave_def release_token_def)
qed

lemma emit_push:
  assumes "signal_holds s xs"
  shows "emit i k x s = emit_loop i k (top s) x (push_token s)"
    and "ring (push_token s) fake ([] @ xs @ [])"
    and "tcur (tok (push_token s) (top s)) = hd (xs @ [fake])"
    and "\<not> tgone (tok (push_token s) (top s))"
    and "alive (push_token s)"
    and "cslot (push_token s) = cslot s" and "csig (push_token s) = csig s"
    and "trace (push_token s) = trace s"
  using assms ring_begin [of s fake xs]
  by (simp_all add: emit_def signal_holds_def push_token_def begin_it_def)

lemma push_token_same:
  "plain (push_token s) = plain s" "self_disconnecting (push_token s) = self_disconnecting s"
  "event (push_token s) = event s" "top (push_token s) = Suc (top s)"
  by (auto simp: plain_def self_disconnecting_def event_def push_token_def intro!: ext)

lemma list_element_fields:
  "csig (list_element c s) = csig s" "cslot (list_element c s) = cslot s"
  "tok (list_element c s) = tok s" "top (list_element c s) = top s"
  "alive (list_element c s) = alive s" "trace (list_element c s) = trace s"
  by (simp_all add: list_element_def set_next_def set_prev_def)

lemma push_front_fields:
  "csig (push_front L c s) = csig s" "cslot (push_front L c s) = cslot s"
  "tok (push_front L c s) = tok s" "top (push_front L c s) = top s"
  "alive (push_front L c s) = alive s" "trace (push_front L c s) = trace s"
  by (simp_all add: push_front_def set_next_def set_prev_def Let_def)

lemma connect_holds:
  assumes "signal_holds s xs" and "c \<notin> set (fake # xs)"
  shows "\<exists>s'. connect c f s = Inr s' \<and> signal_holds s' (c # xs)
           \<and> cslot s' = (cslot s)(c := Some f) \<and> trace s' = trace s \<and> top s' = top s"
proof -
  let ?s2 = "(list_element c s)\<lparr>csig := (csig (list_element c s))(c := Sig),
               cslot := (cslot (list_element c s))(c := Some f)\<rparr>"
  have "ring (list_element c s) fake xs"
    using assms by (intro ring_list_element) (simp_all add: signal_holds_def)
  then have "ring ?s2 fake xs" by simp
  then have "ring (push_front fake c ?s2) fake (c # xs)"
    using assms(2) by (rule ring_push_front)
  moreover have "connect c f s = Inr (push_front fake c ?s2)"
    using assms(1) by (simp add: connect_def signal_holds_def Let_def)
  ultimately show ?thesis
    using assms by (auto simp: signal_holds_def push_front_fields list_element_fields)
qed

lemma state0_holds: "signal_holds state0 []"
  by (simp add: signal_holds_def ring_def state0_def)

lemma connected_holds:
  assumes "signal_holds s xs" and "c \<notin> set (fake # xs)"
  shows "signal_holds (connected c f s) (c # xs)"
    and "cslot (connected c f s) = (cslot s)(c := Some f)"
    and "trace (connected c f s) = trace s"
    and "top (connected c f s) = top s"
  using connect_holds [OF assms, of f] by (auto simp: connected_def)

lemma three_connected_holds:
  "signal_holds (three_connected body) [4, 3, 2]"
  "cslot (three_connected body) 2 = Some (2, [])"
  "cslot (three_connected body) 3 = Some (3, body)"
  "cslot (three_connected body) 4 = Some (4, [])"
  "trace (three_connected body) = []"
  "top (three_connected body) = 0"
proof -
  let ?s1 = "connected 2 (2, []) state0"
  let ?s2 = "connected 3 (3, body) ?s1"
  have h1: "signal_holds ?s1 [2]"
    by (rule connected_holds [OF state0_holds]) (simp add: fake_def)
  have h2: "signal_holds ?s2 [3, 2]"
    by (rule connected_holds [OF h1]) (simp add: fake_def)
  show "signal_holds (three_connected body) [4, 3, 2]"
    unfolding three_connected_def by (rule connected_holds [OF h2]) (simp add: fake_def)
  have c1: "cslot ?s1 = (cslot state0)(2 := Some (2, []))" "trace ?s1 = trace state0"
    "top ?s1 = top state0"
    by (rule connected_holds [OF state0_holds], simp add: fake_def)+
  have c2: "cslot ?s2 = (cslot ?s1)(3 := Some (3, body))" "trace ?s2 = trace ?s1"
    "top ?s2 = top ?s1"
    by (rule connected_holds [OF h1], simp add: fake_def)+
  have c3: "cslot (three_connected body) = (cslot ?s2)(4 := Some (4, []))"
    "trace (three_connected body) = trace ?s2" "top (three_connected body) = top ?s2"
    unfolding three_connected_def by (rule connected_holds [OF h2], simp add: fake_def)+
  show "cslot (three_connected body) 2 = Some (2, [])"
    "cslot (three_connected body) 3 = Some (3, body)"
    "cslot (three_connected body) 4 = Some (4, [])"
    "trace (three_connected body) = []" "top (three_connected body) = 0"
    by (simp_all only: c1 c2 c3) (simp_all add: state0_def)
qed

lemma emit_loop_all_plain:
  assumes "ring s fake (us @ ys)"
    and "tcur (tok s d) = hd (ys @ [fake])"
    and "\<forall>y\<in>set ys. plain s y"
    and "alive s" and "\<not> tgone (tok s d)"
    and "length ys + 3 \<le> k"
  shows "emit_loop i k d x s = Some (Returned,
           s\<lparr>tok := (tok s)(d := (tok s d)\<lparr>tcur := fake\<rparr>),
             trace := trace s @ map (event s x) ys, top := d\<rparr>)"
  using assms
proof (induction ys arbitrary: us s k)
  case Nil
  have c: "tcur (tok s d) = fake" using Nil.prems(2) by simp
  have "(tok s d)\<lparr>tcur := fake\<rparr> = tok s d" by (simp add: c [symmetric])
  then have t: "(tok s)(d := (tok s d)\<lparr>tcur := fake\<rparr>) = tok s"
    by (simp add: fun_upd_idem)
  have a: "emit_loop i k d x s = Some (Returned, s\<lparr>top := d\<rparr>)"
    using Nil.prems by (intro emit_loop_end) simp_all
  have b: "s\<lparr>tok := (tok s)(d := (tok s d)\<lparr>tcur := fake\<rparr>),
             trace := trace s @ map (event s x) [], top := d\<rparr> = s\<lparr>top := d\<rparr>"
    unfolding t by simp
  show ?case by (simp only: a b)
next
  case (Cons y ys)
  have r: "ring s fake (us @ y # ys)" using Cons.prems(1) by simp
  have yf: "y \<noteq> fake" using r by (auto simp: ring_def)
  have nx: "nxt s y = hd (ys @ [fake])" using r by (rule ring_next)
  obtain f where f: "cslot s y = Some (f, [])" using Cons.prems(3) by (auto simp: plain_def)
  let ?s1 = "s\<lparr>tok := (tok s)(d := (tok s d)\<lparr>tcur := nxt s y\<rparr>),
                trace := trace s @ [(y, f, x)]\<rparr>"
  have step: "emit_loop i k d x s = emit_loop i (k - 1) d x ?s1"
    using Cons.prems f yf by (intro emit_loop_plain) simp_all
  have same: "plain ?s1 = plain s" "event ?s1 = event s"
    by (auto simp: plain_def event_def intro!: ext)
  have "emit_loop i (k - 1) d x ?s1 = Some (Returned,
           ?s1\<lparr>tok := (tok ?s1)(d := (tok ?s1 d)\<lparr>tcur := fake\<rparr>),
             trace := trace ?s1 @ map (event ?s1 x) ys, top := d\<rparr>)"
  proof (rule Cons.IH)
    show "ring ?s1 fake ((us @ [y]) @ ys)" using r by simp
    show "tcur (tok ?s1 d) = hd (ys @ [fake])" using nx by simp
    show "\<forall>y\<in>set ys. plain ?s1 y" using Cons.prems(3) by (simp add: same)
    show "alive ?s1" using Cons.prems(4) by simp
    show "\<not> tgone (tok ?s1 d)" using Cons.prems(5) by simp
    show "length ys + 3 \<le> k - 1" using Cons.prems(6) by simp
  qed
  then have ih: "emit_loop i (k - 1) d x ?s1 = Some (Returned,
           ?s1\<lparr>tok := (tok ?s1)(d := (tok ?s1 d)\<lparr>tcur := fake\<rparr>),
             trace := trace ?s1 @ map (event s x) ys, top := d\<rparr>)"
    by (simp only: same)
  have ev: "event s x y = (y, f, x)" using f by (simp add: event_def)
  have eq: "?s1\<lparr>tok := (tok ?s1)(d := (tok ?s1 d)\<lparr>tcur := fake\<rparr>),
             trace := trace ?s1 @ map (event s x) ys, top := d\<rparr>
        = s\<lparr>tok := (tok s)(d := (tok s d)\<lparr>tcur := fake\<rparr>),
             trace := trace s @ map (event s x) (y # ys), top := d\<rparr>"
    by (simp add: ev)
  show ?case by (simp only: step ih eq)
qed

lemma clear_empty: "0 < k \<Longrightarrow> empty_list h L \<Longrightarrow> clear k L h = Some h"
  by (cases k) simp_all

lemma unlink_all_ring:
  assumes "ring s fake xs" and "length xs < k"
  shows "\<exists>s'. unlink_all k s = Some s' \<and> ring s' fake []
      \<and> (\<forall>y\<in>set xs. \<not> is_linked s' y \<and> cslot s' y = None \<and> csig s' y = Null)
      \<and> tok s' = tok s \<and> top s' = top s \<and> alive s' = alive s \<and> trace s' = trace s
      \<and> (\<forall>z. z \<notin> set (fake # xs) \<longrightarrow> nxt s' z = nxt s z \<and> prv s' z = prv s z
              \<and> cslot s' z = cslot s z \<and> csig s' z = csig s z)"
  using assms
proof (induction xs arbitrary: s k)
  case Nil
  then have "nxt s fake = fake" by (simp add: ring_def)
  with Nil show ?case by (cases k) (simp_all add: empty_list_def)
next
  case (Cons y ys)
  obtain k' where k: "k = Suc k'" using Cons.prems(2) by (cases k) auto
  have r: "ring s fake ([] @ y # ys)" using Cons.prems(1) by simp
  have d: "distinct (fake # y # ys)" using Cons.prems(1) by (simp add: ring_def)
  have b: "nxt s fake = y" using ring_begin [OF Cons.prems(1)] by simp
  have p: "prv s y = fake" using ring_prev [OF r] by simp
  have nb: "nxt s y \<in> set (fake # y # ys)" using ring_neighbours(1) [OF r] by simp
  let ?s2 = "s\<lparr>cslot := (cslot s)(y := None), csig := (csig s)(y := Null)\<rparr>"
  let ?s3 = "unlink y ?s2"
  have step: "unlink_all k s = unlink_all k' ?s3"
    using b d by (simp add: k empty_list_def Let_def)
  have r3: "ring ?s3 fake ([] @ ys)"
    by (rule ring_unlink) (use r in simp)
  have "\<exists>s'. unlink_all k' ?s3 = Some s' \<and> ring s' fake []
      \<and> (\<forall>y\<in>set ys. \<not> is_linked s' y \<and> cslot s' y = None \<and> csig s' y = Null)
      \<and> tok s' = tok ?s3 \<and> top s' = top ?s3 \<and> alive s' = alive ?s3 \<and> trace s' = trace ?s3
      \<and> (\<forall>z. z \<notin> set (fake # ys) \<longrightarrow> nxt s' z = nxt ?s3 z \<and> prv s' z = prv ?s3 z
              \<and> cslot s' z = cslot ?s3 z \<and> csig s' z = csig ?s3 z)"
    by (rule Cons.IH) (use r3 Cons.prems(2) k in simp_all)
  then obtain s' where s': "unlink_all k' ?s3 = Some s'" "ring s' fake []"
      "\<forall>y\<in>set ys. \<not> is_linked s' y \<and> cslot s' y = None \<and> csig s' y = Null"
      "tok s' = tok ?s3" "top s' = top ?s3" "alive s' = alive ?s3" "trace s' = trace ?s3"
      "\<forall>z. z \<notin> set (fake # ys) \<longrightarrow> nxt s' z = nxt ?s3 z \<and> prv s' z = prv ?s3 z
              \<and> cslot s' z = cslot ?s3 z \<and> csig s' z = csig ?s3 z"
    by blast
  have yout: "y \<notin> set (fake # ys)" using d by auto
  have yy: "\<not> is_linked s' y \<and> cslot s' y = None \<and> csig s' y = Null"
  proof -
    have "nxt s' y = nxt ?s3 y \<and> prv s' y = prv ?s3 y
              \<and> cslot s' y = cslot ?s3 y \<and> csig s' y = csig ?s3 y"
      using s'(8) yout by blast
    then show ?thesis by (simp add: is_linked_def unlink_nxt unlink_prv unlink_fields)
  qed
  have fr: "nxt s' z = nxt s z \<and> prv s' z = prv s z \<and> cslot s' z = cslot s z
              \<and> csig s' z = csig s z" if z: "z \<notin> set (fake # y # ys)" for z
  proof -
    have "z \<noteq> y" "z \<noteq> prv ?s2 y" "z \<noteq> nxt ?s2 y" using z p nb by auto
    then have "nxt ?s3 z = nxt s z" "prv ?s3 z = prv s z"
      by (simp_all add: unlink_other)
    moreover have "cslot ?s3 z = cslot s z" "csig ?s3 z = csig s z"
      using \<open>z \<noteq> y\<close> by (simp_all add: unlink_fields)
    moreover have "nxt s' z = nxt ?s3 z \<and> prv s' z = prv ?s3 z
              \<and> cslot s' z = cslot ?s3 z \<and> csig s' z = csig ?s3 z"
      using s'(8) z by auto
    ultimately show ?thesis by simp
  qed
  show ?case
  proof (intro exI [of _ s'] conjI)
    show "unlink_all k s = Some s'" using step s'(1) by simp
    show "\<forall>y'\<in>set (y # ys). \<not> is_linked s' y' \<and> cslot s' y' = None \<and> csig s' y' = Null"
      using s'(3) yy by simp
    show "\<forall>z. z \<notin> set (fake # y # ys) \<longrightarrow> nxt s' z = nxt s z \<and> prv s' z = prv s z
              \<and> cslot s' z = cslot s z \<and> csig s' z = csig s z"
      using fr by blast
  qed (use s' in \<open>simp_all add: unlink_fields\<close>)
qed

text \<open>
  C7: \<open>connect\<close> links the new connection at the front of the list. An emission over
  callbacks that leave the signal and the connections alone invokes the callback of every
  linked connection once, in list order, and returns normally; all it leaves behind is
  the trace and the dead local token. On a signal with no connection it invokes nothing.
\<close>

theorem emission_in_list_order:
  assumes "signal_holds s xs"
  shows "(c \<notin> set (fake # xs) \<longrightarrow>
           (\<exists>s'. connect c f s = Inr s' \<and> signal_holds s' (c # xs)
                 \<and> cslot s' = (cslot s)(c := Some f)))
       \<and> ((\<forall>y\<in>set xs. plain s y) \<and> length xs + 3 \<le> k \<longrightarrow>
           emit i k x s = Some (Returned,
             s\<lparr>tok := (tok s)(top s := \<lparr>tcur = fake, tgone = False\<rparr>),
               trace := trace s @ map (event s x) xs\<rparr>))
       \<and> (xs = [] \<and> 3 \<le> k \<longrightarrow>
           emit i k x s = Some (Returned,
             s\<lparr>tok := (tok s)(top s := \<lparr>tcur = fake, tgone = False\<rparr>)\<rparr>))"
proof -
  have a: "\<exists>s'. connect c f s = Inr s' \<and> signal_holds s' (c # xs)
                 \<and> cslot s' = (cslot s)(c := Some f)" if "c \<notin> set (fake # xs)"
    using connect_holds [OF assms that, of f] by blast
  have b: "emit i k x s = Some (Returned,
             s\<lparr>tok := (tok s)(top s := \<lparr>tcur = fake, tgone = False\<rparr>),
               trace := trace s @ map (event s x) xs\<rparr>)"
    if p: "\<forall>y\<in>set xs. plain s y" and k: "length xs + 3 \<le> k"
  proof -
    let ?p = "push_token s"
    note e = emit_push [OF assms]
    have "emit_loop i k (top s) x ?p = Some (Returned,
           ?p\<lparr>tok := (tok ?p)(top s := (tok ?p (top s))\<lparr>tcur := fake\<rparr>),
             trace := trace ?p @ map (event ?p x) xs, top := top s\<rparr>)"
    proof (rule emit_loop_all_plain)
      show "ring ?p fake ([] @ xs)" using e(2) by simp
      show "tcur (tok ?p (top s)) = hd (xs @ [fake])" by (rule e)
      show "\<forall>y\<in>set xs. plain ?p y" using p by (simp add: push_token_same)
      show "alive ?p" by (rule e)
      show "\<not> tgone (tok ?p (top s))" by (rule e)
      show "length xs + 3 \<le> k" by (rule k)
    qed
    then show ?thesis
      by (simp add: e(1) push_token_same) (simp add: push_token_def)
  qed
  have c: "emit i k x s = Some (Returned,
             s\<lparr>tok := (tok s)(top s := \<lparr>tcur = fake, tgone = False\<rparr>)\<rparr>)"
    if "xs = []" and "3 \<le> k"
    using b that by simp
  from a b c show ?thesis by blast
qed

theorem emission_in_list_order_witness:
  "(\<exists>s'. connect 5 (5, []) (three_connected []) = Inr s' \<and> signal_holds s' [5, 4, 3, 2]
         \<and> cslot s' = (cslot (three_connected []))(5 := Some (5, [])))
   \<and> emit Main 6 0 (three_connected []) = Some (Returned,
        (three_connected [])\<lparr>tok := (tok (three_connected []))(0 := \<lparr>tcur = fake, tgone = False\<rparr>),
           trace := [(4, 4, 0), (3, 3, 0), (2, 2, 0)]\<rparr>)
   \<and> emit Main 3 0 state0 = Some (Returned,
        state0\<lparr>tok := (tok state0)(0 := \<lparr>tcur = fake, tgone = False\<rparr>)\<rparr>)"
proof -
  let ?s = "three_connected []"
  note h = three_connected_holds [of "[]"]
  have p: "\<forall>y\<in>set [4, 3, 2]. plain ?s y" by (simp add: plain_def h)
  have m: "event ?s 0 4 = (4, 4, 0)" "event ?s 0 3 = (3, 3, 0)" "event ?s 0 2 = (2, 2, 0)"
    by (simp_all add: event_def h)
  have n: "5 \<notin> set (fake # [4, 3, 2])" by (simp add: fake_def)
  have t: "top state0 = 0" by (simp add: state0_def)
  from emission_in_list_order [OF h(1), of 5 "(5, [])" 6 Main 0]
    emission_in_list_order [OF state0_holds, of 5 "(5, [])" 3 Main 0]
  show ?thesis using p n by (simp add: m h t)
qed

text \<open>
  The loop moves the cursor past the current connection before it calls the callback
  (\<open>emit_loop\<close> calls \<open>invoke\<close> in the state with the cursor advanced). So in an
  emission in which every callback either does nothing or only disconnects its own
  connection, and so no callback emits the signal again, every connection linked at
  the start is invoked exactly once, in list order; the self-disconnecting ones end
  unlinked with their callback cleared, and the others stay linked in their order.
\<close>

lemma self_disconnect_flat_emission:
  assumes "signal_holds s xs"
    and "\<forall>y\<in>set xs. plain s y \<or> self_disconnecting s y"
    and "length xs + 4 \<le> k"
  shows "\<exists>s'. emit i k x s = Some (Returned, s')
      \<and> trace s' = trace s @ map (event s x) xs
      \<and> signal_holds s' (filter (plain s) xs)
      \<and> (\<forall>y\<in>set xs. self_disconnecting s y \<longrightarrow> \<not> is_linked s' y \<and> cslot s' y = None)
      \<and> (\<forall>y\<in>set xs. plain s y \<longrightarrow> cslot s' y = cslot s y)
      \<and> top s' = top s"
proof -
  let ?p = "push_token s" and ?d = "top s"
  note e = emit_push [OF assms(1)]
  have "\<exists>s'. emit_loop i k ?d x ?p = emit_loop i (k - length xs) ?d x s'
      \<and> ring s' fake ([] @ filter (plain ?p) xs @ [])
      \<and> tcur (tok s' ?d) = hd ([] @ [fake]) \<and> \<not> tgone (tok s' ?d)
      \<and> alive s' \<and> top s' = top ?p
      \<and> trace s' = trace ?p @ map (event ?p x) xs
      \<and> (\<forall>z. \<not> (z \<in> set xs \<and> self_disconnecting ?p z) \<longrightarrow>
            cslot s' z = cslot ?p z \<and> csig s' z = csig ?p z)
      \<and> (\<forall>z. z \<notin> set (fake # [] @ xs @ []) \<longrightarrow> nxt s' z = nxt ?p z \<and> prv s' z = prv ?p z)
      \<and> (\<forall>y\<in>set xs. self_disconnecting ?p y \<longrightarrow> \<not> is_linked s' y \<and> cslot s' y = None)"
  proof (rule emit_loop_steps)
    show "ring ?p fake ([] @ xs @ [])" by (rule e)
    show "tcur (tok ?p ?d) = hd (xs @ [] @ [fake])" using e(3) by simp
    show "\<forall>y\<in>set xs. plain ?p y \<or> self_disconnecting ?p y"
      using assms(2) by (simp add: push_token_same)
    show "\<forall>y\<in>set xs. csig ?p y = Sig" using assms(1) by (simp add: e signal_holds_def)
    show "alive ?p" by (rule e)
    show "\<not> tgone (tok ?p ?d)" by (rule e)
    show "length xs + 3 \<le> k" using assms(3) by simp
  qed
  then obtain s' where s': "emit_loop i k ?d x ?p = emit_loop i (k - length xs) ?d x s'"
      "ring s' fake (filter (plain s) xs)"
      "tcur (tok s' ?d) = fake" "\<not> tgone (tok s' ?d)" "alive s'"
      "trace s' = trace s @ map (event s x) xs"
      "\<forall>z. \<not> (z \<in> set xs \<and> self_disconnecting s z) \<longrightarrow>
            cslot s' z = cslot s z \<and> csig s' z = csig s z"
      "\<forall>y\<in>set xs. self_disconnecting s y \<longrightarrow> \<not> is_linked s' y \<and> cslot s' y = None"
    by (auto simp: push_token_same e)
  have "emit_loop i (k - length xs) ?d x s' = Some (Returned, s'\<lparr>top := ?d\<rparr>)"
    using assms(3) s'(3,4,5) by (intro emit_loop_end) simp_all
  then have r: "emit i k x s = Some (Returned, s'\<lparr>top := ?d\<rparr>)"
    using e(1) s'(1) by simp
  have pl: "\<not> self_disconnecting s y" if "plain s y" for y
    using that by (auto simp: plain_def self_disconnecting_def)
  have h: "signal_holds (s'\<lparr>top := ?d\<rparr>) (filter (plain s) xs)"
    using s'(2,5,7) assms(1) pl by (auto simp: signal_holds_def)
  show ?thesis
  proof (intro exI [of _ "s'\<lparr>top := ?d\<rparr>"] conjI)
    show "\<forall>y\<in>set xs. self_disconnecting s y \<longrightarrow>
            \<not> is_linked (s'\<lparr>top := ?d\<rparr>) y \<and> cslot (s'\<lparr>top := ?d\<rparr>) y = None"
      using s'(8) by (simp add: is_linked_def)
    show "\<forall>y\<in>set xs. plain s y \<longrightarrow> cslot (s'\<lparr>top := ?d\<rparr>) y = cslot s y"
      using s'(7) pl by auto
  qed (use r h s'(6) in simp_all)
qed

lemma self_disconnect_flat_emission_example:
  "\<exists>s'. emit Main 7 0 (three_connected [Disconnect 3]) = Some (Returned, s')
      \<and> trace s' = [(4, 4, 0), (3, 3, 0), (2, 2, 0)]
      \<and> signal_holds s' [4, 2]
      \<and> cslot s' 3 = None \<and> nxt s' 3 = 3 \<and> prv s' 3 = 3
      \<and> top s' = 0"
proof -
  let ?s = "three_connected [Disconnect 3]"
  note h = three_connected_holds [of "[Disconnect 3]"]
  have k: "\<forall>y\<in>set [4, 3, 2]. plain ?s y \<or> self_disconnecting ?s y"
    by (simp add: plain_def self_disconnecting_def h)
  have f: "plain ?s 4" "\<not> plain ?s 3" "plain ?s 2" "self_disconnecting ?s 3"
    "event ?s 0 4 = (4, 4, 0)" "event ?s 0 3 = (3, 3, 0)" "event ?s 0 2 = (2, 2, 0)"
    by (simp_all add: plain_def self_disconnecting_def event_def h)
  from self_disconnect_flat_emission [OF h(1) k, of 7 Main 0]
  show ?thesis
    by (auto simp: f h is_linked_def)
qed

text \<open>
  C3, at a failing input: the connections 3, 2, 1 are linked in this order; the callback
  of 3 disconnects its own connection and emits the signal again, the callback of 2
  disconnects its own connection. While 3 is being called, the cursor of the outer
  emission is at 2. The inner emission calls 2, whose \<open>disconnect()\<close> finds the outer
  cursor at itself and, after \<open>unlink()\<close> has set \<open>next = this\<close>, leaves it there;
  the inner emission goes on to 1 and returns. The outer emission then visits 2 again
  and calls its emptied \<open>slot\<close>: \<open>std::bad_function_call\<close> leaves \<open>operator()\<close>, and
  connection 1, still linked with its callback, is never invoked with the argument 7 of
  the outer emission. Both source files behave so.
\<close>

theorem nested_self_disconnect_aborts_emission:
  "map_option (\<lambda>(out, s). (out, trace s, tcur (tok s 0), nxt s 2, to_list 10 s fake, cslot s 1))
     (exec Main 30 [Connect 1 1 [], Connect 2 2 [Disconnect 2],
        Connect 3 3 [Disconnect 3, Emit 8], Emit 7] state0)
     = Some (Threw BadFunctionCall, [(3, 3, 7), (2, 2, 8), (1, 1, 8)], 2, 2, Some [1], Some (1, []))
   \<and> map_option (\<lambda>(out, s). (out, trace s, tcur (tok s 0), nxt s 2, to_list 10 s fake, cslot s 1))
     (exec Alt 30 [Connect 1 1 [], Connect 2 2 [Disconnect 2],
        Connect 3 3 [Disconnect 3, Emit 8], Emit 7] state0)
     = Some (Threw BadFunctionCall, [(3, 3, 7), (2, 2, 8), (1, 1, 8)], 2, 2, Some [1], Some (1, []))"
  by code_simp

text \<open>
  C5: a callback throws during an emission, after callbacks that do nothing or disconnect
  themselves. The exception leaves \<open>operator()\<close>; the token is taken off the stack
  (\<open>top\<close> is as before the emission) in both source files; the connections behind the
  throwing one are not invoked; the signal still holds the connections that did not
  disconnect themselves, the throwing one and the unvisited ones with their callbacks.
\<close>

theorem callback_failure_propagates:
  assumes "signal_holds s (pre @ c # post)"
    and "\<forall>y\<in>set pre. plain s y \<or> self_disconnecting s y"
    and "cslot s c = Some (f, [Throw])"
    and "length pre + 4 \<le> k"
  shows "\<exists>s'. emit i k x s = Some (Threw UserException, s')
      \<and> trace s' = trace s @ map (event s x) (pre @ [c])
      \<and> top s' = top s
      \<and> signal_holds s' (filter (plain s) pre @ c # post)
      \<and> (\<forall>z\<in>set (c # post). cslot s' z = cslot s z)"
proof -
  let ?p = "push_token s" and ?d = "top s"
  note e = emit_push [OF assms(1)]
  have d: "distinct (fake # pre @ c # post)"
    using assms(1) by (simp add: signal_holds_def ring_def)
  have "\<exists>s'. emit_loop i k ?d x ?p = emit_loop i (k - length pre) ?d x s'
      \<and> ring s' fake ([] @ filter (plain ?p) pre @ c # post)
      \<and> tcur (tok s' ?d) = hd ((c # post) @ [fake]) \<and> \<not> tgone (tok s' ?d)
      \<and> alive s' \<and> top s' = top ?p
      \<and> trace s' = trace ?p @ map (event ?p x) pre
      \<and> (\<forall>z. \<not> (z \<in> set pre \<and> self_disconnecting ?p z) \<longrightarrow>
            cslot s' z = cslot ?p z \<and> csig s' z = csig ?p z)
      \<and> (\<forall>z. z \<notin> set (fake # [] @ pre @ c # post) \<longrightarrow>
            nxt s' z = nxt ?p z \<and> prv s' z = prv ?p z)
      \<and> (\<forall>y\<in>set pre. self_disconnecting ?p y \<longrightarrow> \<not> is_linked s' y \<and> cslot s' y = None)"
  proof (rule emit_loop_steps)
    show "ring ?p fake ([] @ pre @ c # post)" using e(2) by simp
    show "tcur (tok ?p ?d) = hd (pre @ (c # post) @ [fake])" using e(3) by simp
    show "\<forall>y\<in>set pre. plain ?p y \<or> self_disconnecting ?p y"
      using assms(2) by (simp add: push_token_same)
    show "\<forall>y\<in>set pre. csig ?p y = Sig" using assms(1) by (simp add: e signal_holds_def)
    show "alive ?p" by (rule e)
    show "\<not> tgone (tok ?p ?d)" by (rule e)
    show "length pre + 3 \<le> k" using assms(4) by simp
  qed
  then obtain s' where s': "emit_loop i k ?d x ?p = emit_loop i (k - length pre) ?d x s'"
      "ring s' fake (filter (plain s) pre @ c # post)"
      "tcur (tok s' ?d) = c" "\<not> tgone (tok s' ?d)" "alive s'"
      "trace s' = trace s @ map (event s x) pre"
      "\<forall>z. \<not> (z \<in> set pre \<and> self_disconnecting s z) \<longrightarrow>
            cslot s' z = cslot s z \<and> csig s' z = csig s z"
    by (auto simp: push_token_same e)
  have cn: "c \<notin> set pre" "c \<noteq> fake" using d by auto
  have cf: "cslot s' c = Some (f, [Throw])" using s'(7) cn assms(3) by simp
  let ?s2 = "s'\<lparr>tok := (tok s')(?d := (tok s' ?d)\<lparr>tcur := nxt s' c\<rparr>),
               trace := trace s' @ [(c, f, x)], top := ?d\<rparr>"
  have "emit_loop i (k - length pre) ?d x s' = Some (Threw UserException, ?s2)"
    using assms(4) s'(3,4,5) cn cf by (intro emit_loop_throw) simp_all
  then have r: "emit i k x s = Some (Threw UserException, ?s2)"
    using e(1) s'(1) by simp
  have pl: "\<not> self_disconnecting s y" if "plain s y" for y
    using that by (auto simp: plain_def self_disconnecting_def)
  have keep: "cslot s' z = cslot s z \<and> csig s' z = csig s z" if "z \<in> set (c # post)" for z
  proof -
    have "z \<notin> set pre" using d that by auto
    then show ?thesis using s'(7) by blast
  qed
  have h: "signal_holds ?s2 (filter (plain s) pre @ c # post)"
    using s'(2,5,7) assms(1) pl keep by (auto simp: signal_holds_def)
  have ev: "event s x c = (c, f, x)" using assms(3) by (simp add: event_def)
  show ?thesis
  proof (intro exI [of _ ?s2] conjI)
    show "trace ?s2 = trace s @ map (event s x) (pre @ [c])" using s'(6) ev by simp
    show "\<forall>z\<in>set (c # post). cslot ?s2 z = cslot s z" using keep by simp
  qed (use r h in simp_all)
qed

theorem callback_failure_propagates_witness:
  "\<exists>s'. emit Main 5 0 (three_connected [Throw]) = Some (Threw UserException, s')
      \<and> trace s' = [(4, 4, 0), (3, 3, 0)]
      \<and> top s' = 0
      \<and> signal_holds s' [4, 3, 2]
      \<and> cslot s' 3 = Some (3, [Throw]) \<and> cslot s' 2 = Some (2, [])"
proof -
  let ?s = "three_connected [Throw]"
  note h = three_connected_holds [of "[Throw]"]
  have k: "\<forall>y\<in>set [4]. plain ?s y \<or> self_disconnecting ?s y"
    by (simp add: plain_def h)
  have f: "plain ?s 4" "event ?s 0 4 = (4, 4, 0)" "event ?s 0 3 = (3, 3, 0)"
    by (simp_all add: plain_def event_def h)
  have g: "signal_holds ?s ([4] @ 3 # [2])" using h(1) by simp
  from callback_failure_propagates [OF g k h(3), of 5 Main 0]
  show ?thesis
    by (auto simp: f h)
qed

text \<open>
  The failure of C1 is the same in every state: whenever a callback disconnects the
  connection next in line, the emission ends with \<open>std::bad_function_call\<close> and the
  connections behind the disconnected one, still linked, are not invoked.
\<close>

lemma emit_loop_disconnect_next:
  assumes "5 \<le> k" and "tcur (tok s d) = y" and "y \<noteq> fake"
    and "cslot s y = Some (f, [Disconnect z])" and "\<not> tgone (tok s d)"
    and "nxt s y = z" and "z \<noteq> fake" and "z \<noteq> y"
    and "is_linked s z" and "csig s z = Sig" and "alive s"
  shows "emit_loop i k d x s = Some (Threw BadFunctionCall,
     (unlink z s)\<lparr>tok := (tok s)(d := (tok s d)\<lparr>tcur := z\<rparr>),
        trace := trace s @ [(y, f, x)], cslot := (cslot s)(z := None),
        csig := (case i of Main \<Rightarrow> (csig s)(z := Null) | Alt \<Rightarrow> csig s), top := d\<rparr>)"
proof -
  let ?s1 = "s\<lparr>tok := (tok s)(d := (tok s d)\<lparr>tcur := z\<rparr>), trace := trace s @ [(y, f, x)]\<rparr>"
  let ?s2 = "(unlink z s)\<lparr>tok := (tok s)(d := (tok s d)\<lparr>tcur := z\<rparr>),
        trace := trace s @ [(y, f, x)], cslot := (cslot s)(z := None),
        csig := (case i of Main \<Rightarrow> (csig s)(z := Null) | Alt \<Rightarrow> csig s)\<rparr>"
  have l: "is_linked ?s1 z" using assms(9) by (simp add: is_linked_def)
  have u: "unlink z ?s1 = (unlink z s)\<lparr>tok := (tok s)(d := (tok s d)\<lparr>tcur := z\<rparr>),
             trace := trace s @ [(y, f, x)]\<rparr>"
    by (simp add: unlink_def set_next_def set_prev_def Let_def)
  have "disconnect i z ?s1 = Inr ((unlink z ?s1)\<lparr>cslot := (cslot ?s1)(z := None),
           csig := (case i of Main \<Rightarrow> (csig ?s1)(z := Null) | Alt \<Rightarrow> csig ?s1)\<rparr>)"
    using l assms by (intro disconnect_linked) simp_all
  then have dis: "disconnect i z ?s1 = Inr ?s2"
    by (cases i) (simp_all add: u)
  have "exec i (k - 1 - 1) [Disconnect z] ?s1 = Some (Returned, ?s2)"
    using assms by (simp add: exec_Disconnect exec_Nil dis)
  then have "invoke i (k - 1) y x (s\<lparr>tok := (tok s)(d := (tok s d)\<lparr>tcur := z\<rparr>)\<rparr>)
        = Some (Returned, ?s2)"
    using assms by (simp add: invoke_unfold)
  then have first: "emit_loop i k d x s = emit_loop i (k - 1) d x ?s2"
    using assms by (subst emit_loop_unfold) (simp_all add: end_it_def Let_def unlink_fields)
  have "invoke i (k - 1 - 1) z x (?s2\<lparr>tok := (tok ?s2)(d := (tok ?s2 d)\<lparr>tcur := nxt ?s2 z\<rparr>)\<rparr>)
        = Some (Threw BadFunctionCall, ?s2\<lparr>tok := (tok ?s2)(d := (tok ?s2 d)\<lparr>tcur := nxt ?s2 z\<rparr>)\<rparr>)"
    using assms by (simp add: invoke_unfold)
  moreover have "?s2\<lparr>tok := (tok ?s2)(d := (tok ?s2 d)\<lparr>tcur := nxt ?s2 z\<rparr>)\<rparr> = ?s2"
    by (simp add: unlink_nxt)
  ultimately have "invoke i (k - 1 - 1) z x
      (?s2\<lparr>tok := (tok ?s2)(d := (tok ?s2 d)\<lparr>tcur := nxt ?s2 z\<rparr>)\<rparr>)
        = Some (Threw BadFunctionCall, ?s2)"
    by simp
  then have "emit_loop i (k - 1) d x ?s2 = Some (Threw BadFunctionCall, ?s2\<lparr>top := d\<rparr>)"
    using assms
    by (subst emit_loop_unfold)
      (simp_all add: end_it_def Let_def unlink_fields leave_def release_token_def)
  with first show ?thesis by simp
qed

lemma disconnect_next_throws:
  assumes "signal_holds s (pre @ c # n # post)"
    and "\<forall>y\<in>set pre. plain s y \<or> self_disconnecting s y"
    and "cslot s c = Some (f, [Disconnect n])"
    and "length pre + 6 \<le> k"
  shows "\<exists>s'. emit i k x s = Some (Threw BadFunctionCall, s')
      \<and> trace s' = trace s @ map (event s x) (pre @ [c])
      \<and> signal_holds s' (filter (plain s) pre @ c # post)
      \<and> tcur (tok s' (top s)) = n \<and> \<not> is_linked s' n \<and> cslot s' n = None"
proof -
  let ?p = "push_token s" and ?d = "top s"
  note e = emit_push [OF assms(1)]
  have d: "distinct (fake # pre @ c # n # post)"
    using assms(1) by (simp add: signal_holds_def ring_def)
  have "\<exists>s'. emit_loop i k ?d x ?p = emit_loop i (k - length pre) ?d x s'
      \<and> ring s' fake ([] @ filter (plain ?p) pre @ c # n # post)
      \<and> tcur (tok s' ?d) = hd ((c # n # post) @ [fake]) \<and> \<not> tgone (tok s' ?d)
      \<and> alive s' \<and> top s' = top ?p
      \<and> trace s' = trace ?p @ map (event ?p x) pre
      \<and> (\<forall>z. \<not> (z \<in> set pre \<and> self_disconnecting ?p z) \<longrightarrow>
            cslot s' z = cslot ?p z \<and> csig s' z = csig ?p z)
      \<and> (\<forall>z. z \<notin> set (fake # [] @ pre @ c # n # post) \<longrightarrow>
            nxt s' z = nxt ?p z \<and> prv s' z = prv ?p z)
      \<and> (\<forall>y\<in>set pre. self_disconnecting ?p y \<longrightarrow> \<not> is_linked s' y \<and> cslot s' y = None)"
  proof (rule emit_loop_steps)
    show "ring ?p fake ([] @ pre @ c # n # post)" using e(2) by simp
    show "tcur (tok ?p ?d) = hd (pre @ (c # n # post) @ [fake])" using e(3) by simp
    show "\<forall>y\<in>set pre. plain ?p y \<or> self_disconnecting ?p y"
      using assms(2) by (simp add: push_token_same)
    show "\<forall>y\<in>set pre. csig ?p y = Sig" using assms(1) by (simp add: e signal_holds_def)
    show "alive ?p" by (rule e)
    show "\<not> tgone (tok ?p ?d)" by (rule e)
    show "length pre + 3 \<le> k" using assms(4) by simp
  qed
  then obtain s' where s': "emit_loop i k ?d x ?p = emit_loop i (k - length pre) ?d x s'"
      "ring s' fake (filter (plain s) pre @ c # n # post)"
      "tcur (tok s' ?d) = c" "\<not> tgone (tok s' ?d)" "alive s'"
      "trace s' = trace s @ map (event s x) pre"
      "\<forall>z. \<not> (z \<in> set pre \<and> self_disconnecting s z) \<longrightarrow>
            cslot s' z = cslot s z \<and> csig s' z = csig s z"
    by (auto simp: push_token_same e)
  have cn: "c \<notin> set pre" "c \<noteq> fake" "n \<notin> set pre" "n \<noteq> fake" "n \<noteq> c" using d by auto
  have cf: "cslot s' c = Some (f, [Disconnect n])" using s'(7) cn assms(3) by simp
  have sn: "csig s' n = Sig" using s'(7) cn assms(1) by (simp add: signal_holds_def)
  have nx: "nxt s' c = n" using ring_next [OF s'(2)] by simp
  have ln: "is_linked s' n" using s'(2) by (rule ring_linked) simp
  let ?s2 = "(unlink n s')\<lparr>tok := (tok s')(?d := (tok s' ?d)\<lparr>tcur := n\<rparr>),
        trace := trace s' @ [(c, f, x)], cslot := (cslot s')(n := None),
        csig := (case i of Main \<Rightarrow> (csig s')(n := Null) | Alt \<Rightarrow> csig s'), top := ?d\<rparr>"
  have "emit_loop i (k - length pre) ?d x s' = Some (Threw BadFunctionCall, ?s2)"
    using assms(4) s'(3,4,5) cn cf sn nx ln by (intro emit_loop_disconnect_next) simp_all
  then have r: "emit i k x s = Some (Threw BadFunctionCall, ?s2)"
    using e(1) s'(1) by simp
  have pl: "\<not> self_disconnecting s y" if "plain s y" for y
    using that by (auto simp: plain_def self_disconnecting_def)
  have keep: "csig s' z = Sig" if "z \<in> set (filter (plain s) pre @ c # post)" for z
  proof -
    have "\<not> (z \<in> set pre \<and> self_disconnecting s z)" using d that pl by auto
    then have "csig s' z = csig s z" using s'(7) by blast
    then show ?thesis using assms(1) that by (auto simp: signal_holds_def)
  qed
  have "ring s' fake ((filter (plain s) pre @ [c]) @ n # post)" using s'(2) by simp
  then have "ring (unlink n s') fake ((filter (plain s) pre @ [c]) @ post)"
    by (rule ring_unlink)
  then have rg: "ring ?s2 fake (filter (plain s) pre @ c # post)" by simp
  have nn: "n \<notin> set (filter (plain s) pre @ c # post)" using d by auto
  have h: "signal_holds ?s2 (filter (plain s) pre @ c # post)"
    unfolding signal_holds_def
  proof (intro conjI ballI)
    fix z assume z: "z \<in> set (filter (plain s) pre @ c # post)"
    then have "z \<noteq> n" using nn by auto
    then show "csig ?s2 z = Sig" using keep [OF z] by (cases i) simp_all
  qed (use rg s'(5) in \<open>simp_all add: unlink_fields\<close>)
  have ev: "event s x c = (c, f, x)" using assms(3) by (simp add: event_def)
  show ?thesis
  proof (intro exI [of _ ?s2] conjI)
    show "trace ?s2 = trace s @ map (event s x) (pre @ [c])" using s'(6) ev by simp
    show "\<not> is_linked ?s2 n" by (simp add: is_linked_def unlink_nxt unlink_prv)
  qed (use r h in simp_all)
qed

section \<open>Destroying the signal from a callback\<close>

lemma exec_Destroy:
  assumes "0 < k" and "alive s"
  shows "exec Main k (Destroy # acts) s =
     (case signal_dtor Main (k - 1) s of None \<Rightarrow> None | Some s1 \<Rightarrow> exec Main (k - 1) acts s1)"
proof (cases k)
  case 0
  with assms show ?thesis by simp
next
  case (Suc k')
  show ?thesis unfolding Suc diff_Suc_1 using assms(2) by simp
qed

lemma signal_dtor_ring:
  assumes "ring s fake xs" and "length xs < k"
  shows "\<exists>s'. signal_dtor Main k s = Some s' \<and> \<not> alive s' \<and> ring s' fake []
      \<and> tok s' = tok (mark_tokens s) \<and> top s' = top s \<and> trace s' = trace s
      \<and> (\<forall>y\<in>set xs. \<not> is_linked s' y \<and> cslot s' y = None \<and> csig s' y = Null)"
proof -
  let ?m = "mark_tokens s"
  have "ring ?m fake xs" using assms(1) by (simp add: mark_tokens_def)
  from unlink_all_ring [OF this assms(2)]
  obtain s1 where s1: "unlink_all k ?m = Some s1" "ring s1 fake []"
      "\<forall>y\<in>set xs. \<not> is_linked s1 y \<and> cslot s1 y = None \<and> csig s1 y = Null"
      "tok s1 = tok ?m" "top s1 = top ?m" "trace s1 = trace ?m"
    by blast
  have "empty_list s1 fake" using s1(2) by (simp add: empty_list_def ring_def)
  then have c: "clear k fake s1 = Some s1" using assms(2) by (intro clear_empty) simp_all
  have dt: "signal_dtor Main k s = Some (s1\<lparr>alive := False\<rparr>)"
    by (simp add: signal_dtor_def s1(1) c)
  show ?thesis
  proof (intro exI [of _ "s1\<lparr>alive := False\<rparr>"] conjI)
    show "\<forall>y\<in>set xs. \<not> is_linked (s1\<lparr>alive := False\<rparr>) y
           \<and> cslot (s1\<lparr>alive := False\<rparr>) y = None \<and> csig (s1\<lparr>alive := False\<rparr>) y = Null"
      using s1(3) by (simp add: is_linked_def)
  qed (use dt s1 in \<open>simp_all add: mark_tokens_def\<close>)
qed

lemma emit_loop_destroy:
  assumes "ring s fake (us @ y # vs)" and "tcur (tok s d) = y"
    and "cslot s y = Some (f, [Destroy])" and "\<not> tgone (tok s d)" and "alive s"
    and "d < top s" and "length (us @ y # vs) + 5 \<le> k"
  shows "\<exists>s'. emit_loop Main k d x s
        = Some (if vs = [] then Undefined UseAfterFree else Returned, s')
      \<and> \<not> alive s' \<and> trace s' = trace s @ [(y, f, x)] \<and> top s' = top s
      \<and> tgone (tok s' d) = (vs \<noteq> [])
      \<and> (\<forall>z\<in>set (us @ y # vs). \<not> is_linked s' z \<and> cslot s' z = None \<and> csig s' z = Null)"
proof -
  have dd: "distinct (fake # us @ y # vs)" using assms(1) by (simp add: ring_def)
  have yf: "y \<noteq> fake" using dd by auto
  have nx: "nxt s y = hd (vs @ [fake])" using assms(1) by (rule ring_next)
  have hv: "hd (vs @ [fake]) = fake \<longleftrightarrow> vs = []" using dd by (cases vs) auto
  let ?s1 = "s\<lparr>tok := (tok s)(d := (tok s d)\<lparr>tcur := nxt s y\<rparr>), trace := trace s @ [(y, f, x)]\<rparr>"
  have r1: "ring ?s1 fake (us @ y # vs)" using assms(1) by simp
  have lt: "length (us @ y # vs) < k - 1 - 1 - 1" using assms(7) by simp
  from signal_dtor_ring [OF r1 lt]
  obtain s2 where s2: "signal_dtor Main (k - 1 - 1 - 1) ?s1 = Some s2" "\<not> alive s2"
      "tok s2 = tok (mark_tokens ?s1)" "top s2 = top ?s1" "trace s2 = trace ?s1"
      "\<forall>z\<in>set (us @ y # vs). \<not> is_linked s2 z \<and> cslot s2 z = None \<and> csig s2 z = Null"
    by blast
  have "exec Main (k - 1 - 1) [Destroy] ?s1 = Some (Returned, s2)"
    using assms(5,7) s2(1) by (simp add: exec_Destroy exec_Nil)
  then have inv: "invoke Main (k - 1) y x (s\<lparr>tok := (tok s)(d := (tok s d)\<lparr>tcur := nxt s y\<rparr>)\<rparr>)
        = Some (Returned, s2)"
    using assms by (simp add: invoke_unfold)
  have tk: "tok s2 d = \<lparr>tcur = hd (vs @ [fake]), tgone = (vs \<noteq> [])\<rparr>"
    using assms(4,6) nx hv by (simp add: s2(3) mark_tokens_def end_it_def)
  have first: "emit_loop Main k d x s
      = (if vs \<noteq> [] then Some (Returned, s2) else emit_loop Main (k - 1) d x s2)"
    using assms inv yf tk by (subst emit_loop_unfold) (simp_all add: end_it_def Let_def)
  have last: "emit_loop Main (k - 1) d x s2 = Some (Undefined UseAfterFree, s2)" if "vs = []"
    using assms(7) tk that s2(2)
    by (subst emit_loop_unfold) (simp_all add: end_it_def leave_def release_token_def)
  show ?thesis
  proof (intro exI [of _ s2] conjI)
    show "emit_loop Main k d x s = Some (if vs = [] then Undefined UseAfterFree else Returned, s2)"
      using first last by simp
    show "tgone (tok s2 d) = (vs \<noteq> [])" using tk by simp
  qed (use s2 in simp_all)
qed

text \<open>
  In every state: a callback that destroys the signal ends the emission at once and
  without a write to the signal when connections are left to visit; when it is the
  callback of the last connection, the emission goes on to write \<open>top_token\<close> of the
  destroyed signal.
\<close>

lemma destroy_during_emission:
  assumes "signal_holds s (pre @ c # post)"
    and "\<forall>y\<in>set pre. plain s y \<or> self_disconnecting s y"
    and "cslot s c = Some (f, [Destroy])"
    and "2 * length pre + length post + 6 \<le> k"
  shows "\<exists>s'. emit Main k x s
        = Some (if post = [] then Undefined UseAfterFree else Returned, s')
      \<and> trace s' = trace s @ map (event s x) (pre @ [c])
      \<and> \<not> alive s' \<and> top s' = Suc (top s) \<and> tgone (tok s' (top s)) = (post \<noteq> [])
      \<and> (\<forall>z\<in>set (c # post). \<not> is_linked s' z \<and> cslot s' z = None \<and> csig s' z = Null)"
proof -
  let ?p = "push_token s" and ?d = "top s"
  note e = emit_push [OF assms(1)]
  have d: "distinct (fake # pre @ c # post)"
    using assms(1) by (simp add: signal_holds_def ring_def)
  have "\<exists>s'. emit_loop Main k ?d x ?p = emit_loop Main (k - length pre) ?d x s'
      \<and> ring s' fake ([] @ filter (plain ?p) pre @ c # post)
      \<and> tcur (tok s' ?d) = hd ((c # post) @ [fake]) \<and> \<not> tgone (tok s' ?d)
      \<and> alive s' \<and> top s' = top ?p
      \<and> trace s' = trace ?p @ map (event ?p x) pre
      \<and> (\<forall>z. \<not> (z \<in> set pre \<and> self_disconnecting ?p z) \<longrightarrow>
            cslot s' z = cslot ?p z \<and> csig s' z = csig ?p z)
      \<and> (\<forall>z. z \<notin> set (fake # [] @ pre @ c # post) \<longrightarrow>
            nxt s' z = nxt ?p z \<and> prv s' z = prv ?p z)
      \<and> (\<forall>y\<in>set pre. self_disconnecting ?p y \<longrightarrow> \<not> is_linked s' y \<and> cslot s' y = None)"
  proof (rule emit_loop_steps)
    show "ring ?p fake ([] @ pre @ c # post)" using e(2) by simp
    show "tcur (tok ?p ?d) = hd (pre @ (c # post) @ [fake])" using e(3) by simp
    show "\<forall>y\<in>set pre. plain ?p y \<or> self_disconnecting ?p y"
      using assms(2) by (simp add: push_token_same)
    show "\<forall>y\<in>set pre. csig ?p y = Sig" using assms(1) by (simp add: e signal_holds_def)
    show "alive ?p" by (rule e)
    show "\<not> tgone (tok ?p ?d)" by (rule e)
    show "length pre + 3 \<le> k" using assms(4) by simp
  qed
  then obtain s' where s': "emit_loop Main k ?d x ?p = emit_loop Main (k - length pre) ?d x s'"
      "ring s' fake (filter (plain s) pre @ c # post)"
      "tcur (tok s' ?d) = c" "\<not> tgone (tok s' ?d)" "alive s'" "top s' = Suc ?d"
      "trace s' = trace s @ map (event s x) pre"
      "\<forall>z. \<not> (z \<in> set pre \<and> self_disconnecting s z) \<longrightarrow>
            cslot s' z = cslot s z \<and> csig s' z = csig s z"
    by (auto simp: push_token_same e)
  have cn: "c \<notin> set pre" using d by auto
  have cf: "cslot s' c = Some (f, [Destroy])" using s'(8) cn assms(3) by simp
  have len: "length (filter (plain s) pre @ c # post) + 5 \<le> k - length pre"
  proof -
    have "length (filter (plain s) pre) \<le> length pre" by (rule length_filter_le)
    then show ?thesis using assms(4) unfolding length_append length_Cons by arith
  qed
  from emit_loop_destroy [OF s'(2,3) cf s'(4,5) _ len, of x] s'(6)
  obtain s2 where s2: "emit_loop Main (k - length pre) ?d x s'
        = Some (if post = [] then Undefined UseAfterFree else Returned, s2)"
      "\<not> alive s2" "trace s2 = trace s' @ [(c, f, x)]" "top s2 = top s'"
      "tgone (tok s2 ?d) = (post \<noteq> [])"
      "\<forall>z\<in>set (filter (plain s) pre @ c # post).
          \<not> is_linked s2 z \<and> cslot s2 z = None \<and> csig s2 z = Null"
    by auto
  have ev: "event s x c = (c, f, x)" using assms(3) by (simp add: event_def)
  show ?thesis
  proof (intro exI [of _ s2] conjI)
    show "emit Main k x s = Some (if post = [] then Undefined UseAfterFree else Returned, s2)"
      using e(1) s'(1) s2(1) by simp
    show "trace s2 = trace s @ map (event s x) (pre @ [c])" using s2(3) s'(7) ev by simp
    show "\<forall>z\<in>set (c # post). \<not> is_linked s2 z \<and> cslot s2 z = None \<and> csig s2 z = Null"
      using s2(6) by simp
  qed (use s2 s'(6) in simp_all)
qed

text \<open>
  C2, at a failing input: the callback of the last connection in line destroys the signal.
  The cursor of the running emission is already at \<open>end()\<close>, so \<open>~signal()\<close> does not
  clear the token's \<open>sig\<close>; after the callback returns, the token's destructor writes
  \<open>top_token\<close> of the destroyed signal. When the callback of a connection that is not the
  last one destroys the signal, the emission returns at once and writes nothing.
\<close>

theorem destroy_in_last_callback_touches_signal:
  "map_option (\<lambda>(out, s). (out, trace s, alive s, tgone (tok s 0)))
     (exec Main 20 [Connect 1 1 [Destroy], Emit 7] state0)
     = Some (Undefined UseAfterFree, [(1, 1, 7)], False, False)
   \<and> map_option (\<lambda>(out, s). (out, trace s, alive s, tgone (tok s 0)))
     (exec Main 20 [Connect 1 1 [Destroy], Connect 2 2 [], Emit 7] state0)
     = Some (Undefined UseAfterFree, [(2, 2, 7), (1, 1, 7)], False, False)
   \<and> map_option (\<lambda>(out, s). (out, trace s, alive s, tgone (tok s 0)))
     (exec Main 20 [Connect 1 1 [], Connect 2 2 [Destroy], Emit 7] state0)
     = Some (Returned, [(2, 2, 7)], False, True)"
  by code_simp

text \<open>
  The destructor of the signal in src/signals.h, and with it the action \<open>Destroy\<close>,
  leaves every connection that was linked unlinked, with its callback cleared and its
  \<open>sig\<close> null, and the list empty. A later \<open>disconnect()\<close> or destruction of such a
  connection changes nothing and does not touch the destroyed signal.
\<close>

lemma main_destructor_unlinks_all:
  assumes "signal_holds s xs" and "length xs < k"
  shows "\<exists>s'. signal_dtor Main k s = Some s'
      \<and> exec Main (Suc k) [Destroy] s = Some (Returned, s')
      \<and> \<not> alive s' \<and> empty_list s' fake
      \<and> (\<forall>c\<in>set xs. \<not> is_linked s' c \<and> cslot s' c = None \<and> csig s' c = Null
            \<and> disconnect Main c s' = Inr s' \<and> connection_dtor Main c s' = Inr s')"
proof -
  let ?m = "mark_tokens s"
  have "ring ?m fake xs" using assms(1) by (simp add: signal_holds_def mark_tokens_def)
  from unlink_all_ring [OF this assms(2)]
  obtain s1 where s1: "unlink_all k ?m = Some s1" "ring s1 fake []"
      "\<forall>y\<in>set xs. \<not> is_linked s1 y \<and> cslot s1 y = None \<and> csig s1 y = Null"
    by blast
  have e: "empty_list s1 fake" using s1(2) by (simp add: empty_list_def ring_def)
  then have c: "clear k fake s1 = Some s1" using assms(2) by (intro clear_empty) simp_all
  let ?s' = "s1\<lparr>alive := False\<rparr>"
  have dt: "signal_dtor Main k s = Some ?s'"
    by (simp add: signal_dtor_def s1(1) c)
  have ex: "exec Main (Suc k) [Destroy] s = Some (Returned, ?s')"
    using assms dt by (simp add: signal_holds_def exec_Nil)
  have un: "\<not> is_linked ?s' y \<and> cslot ?s' y = None \<and> csig ?s' y = Null
            \<and> disconnect Main y ?s' = Inr ?s' \<and> connection_dtor Main y ?s' = Inr ?s'"
    if "y \<in> set xs" for y
  proof -
    have l: "\<not> is_linked ?s' y" using s1(3) that by (simp add: is_linked_def)
    then show ?thesis
      using s1(3) that by (simp add: disconnect_def connection_dtor_def unlink_unlinked)
  qed
  show ?thesis
  proof (intro exI [of _ ?s'] conjI)
    show "empty_list ?s' fake" using e by (simp add: empty_list_def)
    show "\<forall>c\<in>set xs. \<not> is_linked ?s' c \<and> cslot ?s' c = None \<and> csig ?s' c = Null
            \<and> disconnect Main c ?s' = Inr ?s' \<and> connection_dtor Main c ?s' = Inr ?s'"
      using un by blast
  qed (use dt ex in simp_all)
qed

lemma main_destructor_unlinks_all_example:
  "\<exists>s'. signal_dtor Main 4 (three_connected []) = Some s'
      \<and> exec Main 5 [Destroy] (three_connected []) = Some (Returned, s')
      \<and> \<not> alive s' \<and> empty_list s' fake
      \<and> cslot s' 3 = None \<and> csig s' 3 = Null \<and> nxt s' 3 = 3 \<and> prv s' 3 = 3
      \<and> disconnect Main 3 s' = Inr s' \<and> connection_dtor Main 3 s' = Inr s'"
proof -
  note h = three_connected_holds [of "[]"]
  from main_destructor_unlinks_all [OF h(1), of 4]
  show ?thesis
    by (auto simp: is_linked_def)
qed

text \<open>
  The destructor in src/unnamed/part_000 has no loop over the connections: they are
  unlinked by the destructor of the list, \<open>clear()\<close>, which touches only \<open>next\<close> and
  \<open>prev\<close>. So there, too, every connection that was linked ends unlinked and a later
  \<open>disconnect()\<close> or destruction of it changes nothing; but each keeps its callback and
  its \<open>sig\<close>, which now dangles.
\<close>

lemma clear_ring:
  fixes s :: state
  assumes "ring s L xs" and "length xs < k"
  shows "\<exists>s'. clear k L s = Some s' \<and> ring s' L []
      \<and> (\<forall>y\<in>set xs. nxt s' y = y \<and> prv s' y = y)
      \<and> cslot s' = cslot s \<and> csig s' = csig s \<and> tok s' = tok s \<and> top s' = top s
      \<and> alive s' = alive s \<and> trace s' = trace s
      \<and> (\<forall>z. z \<notin> set (L # xs) \<longrightarrow> nxt s' z = nxt s z \<and> prv s' z = prv s z)"
  using assms
proof (induction xs arbitrary: s k rule: rev_induct)
  case Nil
  then have "nxt s L = L" by (simp add: ring_def)
  with Nil show ?case by (cases k) (simp_all add: empty_list_def)
next
  case (snoc y ys)
  obtain k' where k: "k = Suc k'" using snoc.prems(2) by (cases k) auto
  have r: "ring s L (ys @ y # [])" using snoc.prems(1) by simp
  have d: "distinct (L # ys @ [y])" using snoc.prems(1) by (simp add: ring_def)
  have b: "prv s L = y" using ring_back [OF snoc.prems(1)] by simp
  have "nxt s L = hd (ys @ [y] @ [L])" using ring_begin [OF snoc.prems(1)] by simp
  moreover have "hd (ys @ [y] @ [L]) \<in> set (ys @ [y])" by (cases ys) simp_all
  ultimately have ne: "nxt s L \<noteq> L" using d by auto
  let ?s1 = "unlink y s"
  have step: "clear k L s = clear k' L ?s1"
    using b ne by (simp add: k empty_list_def pop_back_def)
  have r1: "ring ?s1 L (ys @ [])"
    by (rule ring_unlink) (rule r)
  have "\<exists>s'. clear k' L ?s1 = Some s' \<and> ring s' L []
      \<and> (\<forall>y\<in>set ys. nxt s' y = y \<and> prv s' y = y)
      \<and> cslot s' = cslot ?s1 \<and> csig s' = csig ?s1 \<and> tok s' = tok ?s1 \<and> top s' = top ?s1
      \<and> alive s' = alive ?s1 \<and> trace s' = trace ?s1
      \<and> (\<forall>z. z \<notin> set (L # ys) \<longrightarrow> nxt s' z = nxt ?s1 z \<and> prv s' z = prv ?s1 z)"
    by (rule snoc.IH) (use r1 snoc.prems(2) k in simp_all)
  then obtain s' where s': "clear k' L ?s1 = Some s'" "ring s' L []"
      "\<forall>y\<in>set ys. nxt s' y = y \<and> prv s' y = y"
      "cslot s' = cslot ?s1" "csig s' = csig ?s1" "tok s' = tok ?s1" "top s' = top ?s1"
      "alive s' = alive ?s1" "trace s' = trace ?s1"
      "\<forall>z. z \<notin> set (L # ys) \<longrightarrow> nxt s' z = nxt ?s1 z \<and> prv s' z = prv ?s1 z"
    by blast
  have yout: "y \<notin> set (L # ys)" using d by auto
  have yy: "nxt s' y = y \<and> prv s' y = y"
    using s'(10) yout by (simp add: unlink_nxt unlink_prv)
  have nb: "nxt s y \<in> set (L # ys @ [y])" "prv s y \<in> set (L # ys @ [y])"
    using ring_neighbours [OF r] by simp_all
  have other: "nxt s' z = nxt s z \<and> prv s' z = prv s z" if z: "z \<notin> set (L # ys @ [y])" for z
  proof -
    have "z \<noteq> y" "z \<noteq> prv s y" "z \<noteq> nxt s y" using z nb by auto
    then have "nxt ?s1 z = nxt s z" "prv ?s1 z = prv s z" by (simp_all add: unlink_other)
    moreover have "z \<notin> set (L # ys)" using z by simp
    ultimately show ?thesis using s'(10) by simp
  qed
  show ?case
  proof (intro exI [of _ s'] conjI)
    show "clear k L s = Some s'" using step s'(1) by simp
    show "\<forall>y\<in>set (ys @ [y]). nxt s' y = y \<and> prv s' y = y" using s'(3) yy by simp
    show "\<forall>z. z \<notin> set (L # ys @ [y]) \<longrightarrow> nxt s' z = nxt s z \<and> prv s' z = prv s z"
      using other by blast
  qed (use s' in \<open>simp_all add: unlink_fields\<close>)
qed

lemma alt_destructor_unlinks_all:
  assumes "signal_holds s xs" and "length xs < k"
  shows "\<exists>s'. signal_dtor Alt k s = Some s'
      \<and> exec Alt (Suc k) [Destroy] s = Some (Returned, s')
      \<and> \<not> alive s' \<and> empty_list s' fake
      \<and> (\<forall>c\<in>set xs. \<not> is_linked s' c \<and> cslot s' c = cslot s c \<and> csig s' c = Sig
            \<and> disconnect Alt c s' = Inr s' \<and> connection_dtor Alt c s' = Inr s')"
proof -
  let ?m = "mark_tokens s"
  have "ring ?m fake xs" using assms(1) by (simp add: signal_holds_def mark_tokens_def)
  from clear_ring [OF this assms(2)]
  obtain s1 where s1: "clear k fake ?m = Some s1" "ring s1 fake []"
      "\<forall>y\<in>set xs. nxt s1 y = y \<and> prv s1 y = y" "cslot s1 = cslot ?m" "csig s1 = csig ?m"
    by blast
  let ?s' = "s1\<lparr>alive := False\<rparr>"
  have dt: "signal_dtor Alt k s = Some ?s'"
    by (simp add: signal_dtor_def s1(1))
  have ex: "exec Alt (Suc k) [Destroy] s = Some (Returned, ?s')"
    using assms dt by (simp add: signal_holds_def exec_Nil)
  have un: "\<not> is_linked ?s' y \<and> cslot ?s' y = cslot s y \<and> csig ?s' y = Sig
            \<and> disconnect Alt y ?s' = Inr ?s' \<and> connection_dtor Alt y ?s' = Inr ?s'"
    if "y \<in> set xs" for y
  proof -
    have l: "\<not> is_linked ?s' y" using s1(3) that by (simp add: is_linked_def)
    then show ?thesis
      using s1(4,5) that assms(1)
      by (simp add: disconnect_def connection_dtor_def signal_holds_def mark_tokens_def
          unlink_unlinked)
  qed
  show ?thesis
  proof (intro exI [of _ ?s'] conjI)
    show "empty_list ?s' fake" using s1(2) by (simp add: empty_list_def ring_def)
    show "\<forall>c\<in>set xs. \<not> is_linked ?s' c \<and> cslot ?s' c = cslot s c \<and> csig ?s' c = Sig
            \<and> disconnect Alt c ?s' = Inr ?s' \<and> connection_dtor Alt c ?s' = Inr ?s'"
      using un by blast
  qed (use dt ex in simp_all)
qed

text \<open>
  C4, at a failing input: the connections 4, 3, 2 are linked to a signal of
  src/unnamed/part_000 and the signal is destroyed. Afterwards the list is empty and
  the connections are unlinked, but all three still hold their callbacks and their
  \<open>sig\<close> still points at the destroyed signal. The same input on src/signals.h leaves
  the callbacks cleared and \<open>sig\<close> null.
\<close>

theorem alt_destructor_keeps_callbacks:
  "map_option (\<lambda>(out, s). (out, alive s, to_list 10 s fake, nxt s 3, prv s 3,
        map (cslot s) [4, 3, 2], map (csig s) [4, 3, 2]))
     (exec Alt 20 [Connect 2 2 [], Connect 3 3 [], Connect 4 4 [], Destroy] state0)
     = Some (Returned, False, Some [], 3, 3, [Some (4, []), Some (3, []), Some (2, [])],
         [Sig, Sig, Sig])
   \<and> map_option (\<lambda>(out, s). (out, alive s, to_list 10 s fake, nxt s 3, prv s 3,
        map (cslot s) [4, 3, 2], map (csig s) [4, 3, 2]))
     (exec Main 20 [Connect 2 2 [], Connect 3 3 [], Connect 4 4 [], Destroy] state0)
     = Some (Returned, False, Some [], 3, 3, [None, None, None], [Null, Null, Null])"
  by code_simp

section \<open>Moving a connection\<close>

lemma repoint_tokens_fields:
  "nxt (repoint_tokens a b s) = nxt s" "prv (repoint_tokens a b s) = prv s"
  "csig (repoint_tokens a b s) = csig s" "cslot (repoint_tokens a b s) = cslot s"
  "top (repoint_tokens a b s) = top s" "alive (repoint_tokens a b s) = alive s"
  "trace (repoint_tokens a b s) = trace s"
  by (simp_all add: repoint_tokens_def)

lemma safe_move_position:
  assumes "ring s fake (us @ src # vs)" and "alive s"
    and "dst \<notin> set (fake # us @ src # vs)"
    and "csig s src = Sig" and "csig s dst = Sig"
  shows "\<exists>s'. safe_move dst src s = Inr s' \<and> ring s' fake (us @ dst # vs)
      \<and> \<not> is_linked s' src
      \<and> tok s' = (\<lambda>n. if n < top s \<and> tcur (tok s n) = src
                         then (tok s n)\<lparr>tcur := dst\<rparr> else tok s n)
      \<and> csig s' = csig s \<and> cslot s' = cslot s \<and> top s' = top s \<and> alive s'
      \<and> trace s' = trace s"
proof -
  let ?h = "unlink src (insert_node src dst s)"
  have l: "is_linked s src" using assms(1) by (rule ring_linked) simp
  have sf: "src \<noteq> fake" using assms(1) by (auto simp: ring_def)
  have m: "safe_move dst src s = Inr (repoint_tokens dst src ?h)"
    using l assms(2,4,5) by (simp add: safe_move_def Let_def)
  have "ring (insert_node src dst s) fake ((us @ [dst]) @ src # vs)"
    using ring_insert_node [OF assms(1,3)] by simp
  then have "ring ?h fake ((us @ [dst]) @ vs)" by (rule ring_unlink)
  then have r: "ring (repoint_tokens dst src ?h) fake (us @ dst # vs)"
    using ring_heap_eq [of "repoint_tokens dst src ?h" ?h fake "us @ dst # vs"]
    by (simp add: repoint_tokens_fields)
  have u: "\<not> is_linked (repoint_tokens dst src ?h) src"
    by (simp add: is_linked_def repoint_tokens_fields unlink_nxt unlink_prv)
  have t: "tok (repoint_tokens dst src ?h)
      = (\<lambda>n. if n < top s \<and> tcur (tok s n) = src then (tok s n)\<lparr>tcur := dst\<rparr> else tok s n)"
    using sf by (auto simp: repoint_tokens_def unlink_fields insert_node_fields end_it_def
        intro!: ext)
  show ?thesis
    using m r u t assms(2)
    by (simp add: repoint_tokens_fields unlink_fields insert_node_fields)
qed

text \<open>
  What holds of a move: the destination takes the place of the source in the list, the
  source ends unlinked, every token whose cursor was at the source points to the
  destination, and the destination holds the callback. A move from an unlinked source
  leaves the destination unlinked.
\<close>

lemma move_ctor_position:
  assumes "signal_holds s (us @ src # vs)"
    and "dst \<notin> set (fake # us @ src # vs)" and "\<not> is_linked s dst"
  shows "\<exists>s'. move_ctor dst src s = Inr s' \<and> signal_holds s' (us @ dst # vs)
      \<and> \<not> is_linked s' src
      \<and> tok s' = (\<lambda>n. if n < top s \<and> tcur (tok s n) = src
                         then (tok s n)\<lparr>tcur := dst\<rparr> else tok s n)
      \<and> cslot s' = (cslot s)(dst := cslot s src) \<and> top s' = top s \<and> trace s' = trace s"
proof -
  let ?s3 = "s\<lparr>csig := (csig s)(dst := csig s src), cslot := (cslot s)(dst := cslot s src)\<rparr>"
  have m: "move_ctor dst src s = safe_move dst src ?s3"
    using assms(3) by (simp add: move_ctor_def list_element_unlinked Let_def)
  have g: "csig s src = Sig" using assms(1) by (simp add: signal_holds_def)
  have "\<exists>s'. safe_move dst src ?s3 = Inr s' \<and> ring s' fake (us @ dst # vs)
      \<and> \<not> is_linked s' src
      \<and> tok s' = (\<lambda>n. if n < top ?s3 \<and> tcur (tok ?s3 n) = src
                         then (tok ?s3 n)\<lparr>tcur := dst\<rparr> else tok ?s3 n)
      \<and> csig s' = csig ?s3 \<and> cslot s' = cslot ?s3 \<and> top s' = top ?s3 \<and> alive s'
      \<and> trace s' = trace ?s3"
    using assms(1,2) g by (intro safe_move_position) (simp_all add: signal_holds_def)
  then obtain s' where s': "safe_move dst src ?s3 = Inr s'" "ring s' fake (us @ dst # vs)"
      "\<not> is_linked s' src"
      "tok s' = (\<lambda>n. if n < top s \<and> tcur (tok s n) = src
                         then (tok s n)\<lparr>tcur := dst\<rparr> else tok s n)"
      "csig s' = csig ?s3" "cslot s' = cslot ?s3" "top s' = top s" "alive s'"
      "trace s' = trace s"
    by (auto cong: if_cong)
  have "signal_holds s' (us @ dst # vs)"
    using s'(2,5,8) assms(1) g by (auto simp: signal_holds_def)
  then show ?thesis using m s' by simp
qed

lemma move_assign_position:
  assumes "signal_holds s (us @ src # vs)"
    and "dst \<notin> set (fake # us @ src # vs)" and "\<not> is_linked s dst"
  shows "\<exists>s'. move_assign i dst src s = Inr s' \<and> signal_holds s' (us @ dst # vs)
      \<and> \<not> is_linked s' src
      \<and> tok s' = (\<lambda>n. if n < top s \<and> tcur (tok s n) = src
                         then (tok s n)\<lparr>tcur := dst\<rparr> else tok s n)
      \<and> cslot s' = (cslot s)(dst := cslot s src, src := None) \<and> top s' = top s
      \<and> trace s' = trace s"
proof -
  let ?s3 = "s\<lparr>csig := (csig s)(dst := csig s src),
               cslot := (cslot s)(dst := cslot s src, src := None)\<rparr>"
  have ne: "dst \<noteq> src" using assms(2) by auto
  have m: "move_assign i dst src s = safe_move dst src ?s3"
    using assms(3) ne by (simp add: move_assign_def disconnect_def Let_def)
  have g: "csig s src = Sig" using assms(1) by (simp add: signal_holds_def)
  have "\<exists>s'. safe_move dst src ?s3 = Inr s' \<and> ring s' fake (us @ dst # vs)
      \<and> \<not> is_linked s' src
      \<and> tok s' = (\<lambda>n. if n < top ?s3 \<and> tcur (tok ?s3 n) = src
                         then (tok ?s3 n)\<lparr>tcur := dst\<rparr> else tok ?s3 n)
      \<and> csig s' = csig ?s3 \<and> cslot s' = cslot ?s3 \<and> top s' = top ?s3 \<and> alive s'
      \<and> trace s' = trace ?s3"
    using assms(1,2) g ne by (intro safe_move_position) (simp_all add: signal_holds_def)
  then obtain s' where s': "safe_move dst src ?s3 = Inr s'" "ring s' fake (us @ dst # vs)"
      "\<not> is_linked s' src"
      "tok s' = (\<lambda>n. if n < top s \<and> tcur (tok s n) = src
                         then (tok s n)\<lparr>tcur := dst\<rparr> else tok s n)"
      "csig s' = csig ?s3" "cslot s' = cslot ?s3" "top s' = top s" "alive s'"
      "trace s' = trace s"
    by (auto cong: if_cong)
  have "signal_holds s' (us @ dst # vs)"
    using s'(2,5,8) assms(1) g by (auto simp: signal_holds_def)
  then show ?thesis using m s' by simp
qed

lemma move_unlinked_source:
  assumes "\<not> is_linked s src" and "\<not> is_linked s dst"
  shows "\<exists>s'. move_ctor dst src s = Inr s' \<and> \<not> is_linked s' dst"
    and "\<exists>s'. move_assign i dst src s = Inr s' \<and> \<not> is_linked s' dst"
  using assms
  by (auto simp: move_ctor_def move_assign_def safe_move_def disconnect_def
      list_element_unlinked Let_def)

text \<open>
  C6, at a failing input: connection 2 is linked in front of connection 1 and a new
  connection 3 is move-constructed from it. Connection 3 takes the place of 2 and 2 is
  unlinked (\<open>next\<close> and \<open>prev\<close> point to itself), but the move constructor copies
  \<open>other.slot\<close>: the moved-from connection still holds its callback. Move assignment, which has \<open>std::move(other.slot)\<close>, leaves
  it empty.
\<close>

theorem move_ctor_keeps_source_callback:
  "map_option (\<lambda>(out, s). (out, to_list 10 s fake, nxt s 2, prv s 2, cslot s 2, cslot s 3))
     (exec Main 20 [Connect 1 1 [], Connect 2 2 [], MoveCtor 3 2] state0)
     = Some (Returned, Some [3, 1], 2, 2, Some (2, []), Some (2, []))
   \<and> map_option (\<lambda>(out, s). (out, to_list 10 s fake, nxt s 2, prv s 2, cslot s 2, cslot s 3))
     (exec Main 20 [Connect 1 1 [], Connect 2 2 [], MoveAssign 3 2] state0)
     = Some (Returned, Some [3, 1], 2, 2, None, Some (2, []))"
  by code_simp

section \<open>Integrity of the list\<close>

text \<open>
  What does hold. Every call other than \<open>splice\<close>, inside its precondition, takes a
  well-formed list to a well-formed list with the expected elements, and on a
  well-formed list the two traversals, \<open>empty\<close> and the local consistency of
  \<open>next\<close> and \<open>prev\<close> are as the specification says. \<open>splice\<close> is right when it moves
  a range from one list into another one.
\<close>

lemma push_back_nxt: "nxt (push_back L n h) = (nxt h)(prv h L := n, n := L)"
  by (simp add: push_back_def set_next_def set_prev_def Let_def)

lemma push_back_prv: "prv (push_back L n h) = (prv h)(n := prv h L, L := n)"
  by (simp add: push_back_def set_next_def set_prev_def Let_def)

lemma ring_push_back:
  assumes "ring h L xs" and "n \<notin> set (L # xs)"
  shows "ring (push_back L n h) L (xs @ [n])"
proof -
  from assms have d: "distinct (L # xs @ [n])" and c: "chain h L xs L"
    by (auto simp: ring_def)
  have p: "prv h L = last (L # xs)" using c by (rule chain_prev)
  have "chain (push_back L n h) L xs n"
  proof (cases xs rule: rev_cases)
    case Nil
    with d p show ?thesis by (simp add: push_back_nxt push_back_prv)
  next
    case (snoc xs' z)
    have "chain (push_back L n h) L xs' z"
    proof (rule chain_frame)
      show "chain h L xs' z" using c snoc by simp
      have "prv h L = z" using p snoc by simp
      then show "\<forall>y\<in>set (L # xs'). nxt (push_back L n h) y = nxt h y"
        using d snoc by (auto simp: push_back_nxt)
      show "\<forall>y\<in>set (xs' @ [z]). prv (push_back L n h) y = prv h y"
        using d snoc by (auto simp: push_back_prv)
    qed
    with snoc d p show ?thesis by (simp add: push_back_nxt push_back_prv)
  qed
  moreover have "chain (push_back L n h) n [] L"
    using d by (simp add: push_back_nxt push_back_prv)
  ultimately have "chain (push_back L n h) L (xs @ [n]) L" by simp
  with d show ?thesis by (simp add: ring_def)
qed

lemma insert_node_end:
  assumes "ring h L xs"
  shows "insert_node L n h = push_back L n h"
proof -
  have "nxt h (prv h L) = L"
    using assms by (cases xs rule: rev_cases) (auto simp: ring_def)
  then show ?thesis
    by (simp add: insert_node_def push_back_def non_const_transform_def Let_def
        set_next_def set_prev_def)
qed

lemma ring_pop_front: "ring h L (x # xs) \<Longrightarrow> ring (pop_front L h) L xs"
  using ring_unlink [of h L "[]" x xs] ring_begin [of h L "x # xs"]
  by (simp add: pop_front_def)

lemma ring_pop_back: "ring h L (xs @ [x]) \<Longrightarrow> ring (pop_back L h) L xs"
  using ring_unlink [of h L xs x "[]"] ring_back [of h L "xs @ [x]"]
  by (simp add: pop_back_def)

lemma ring_erase:
  assumes "ring h L (us @ x # vs)"
  shows "erase x h = (hd (vs @ [L]), unlink x h)" and "ring (snd (erase x h)) L (us @ vs)"
proof -
  have p: "prv h x = last (L # us)" using assms by (rule ring_prev)
  have q: "nxt h (prv h x) = x"
    using assms by (cases us rule: rev_cases) (auto simp: ring_def)
  have n: "nxt h x = hd (vs @ [L])" using assms by (rule ring_next)
  have b: "prv h (nxt h x) = x"
    using assms by (cases vs) (auto simp: ring_def)
  show e: "erase x h = (hd (vs @ [L]), unlink x h)"
    by (simp add: erase_def non_const_transform_def Let_def q b n [symmetric])
  show "ring (snd (erase x h)) L (us @ vs)"
    unfolding e using ring_unlink [OF assms] by simp
qed

lemma backward_chain:
  "chain h L xs b \<Longrightarrow> L \<notin> set xs \<Longrightarrow> length xs < k
   \<Longrightarrow> backward k h L (prv h b) = Some (rev xs)"
proof (induction xs arbitrary: b k rule: rev_induct)
  case Nil
  then show ?case by (cases k) (simp_all add: end_it_def)
next
  case (snoc x xs)
  then show ?case by (cases k) (auto simp: end_it_def)
qed

lemma ring_traversals:
  assumes "ring h L xs" and "length xs < k"
  shows "to_list k h L = Some xs" and "to_list_rev k h L = Some (rev xs)"
    and "empty_list h L \<longleftrightarrow> begin_it h L = end_it L"
    and "empty_list h L \<longleftrightarrow> xs = []"
    and "\<forall>x\<in>set (L # xs). prv h (nxt h x) = x \<and> nxt h (prv h x) = x"
proof -
  have c: "chain h L xs L" and d: "distinct (L # xs)" using assms(1) by (simp_all add: ring_def)
  show "to_list k h L = Some xs"
    using forward_chain [OF c _ assms(2)] d by (simp add: to_list_def begin_it_def)
  show "to_list_rev k h L = Some (rev xs)"
    using backward_chain [OF c _ assms(2)] d by (simp add: to_list_rev_def)
  show "empty_list h L \<longleftrightarrow> begin_it h L = end_it L"
    by (simp add: empty_list_def begin_it_def end_it_def)
  show "empty_list h L \<longleftrightarrow> xs = []"
    using ring_begin [OF assms(1)] d by (cases xs) (auto simp: empty_list_def)
  show "\<forall>x\<in>set (L # xs). prv h (nxt h x) = x \<and> nxt h (prv h x) = x"
  proof
    fix x assume "x \<in> set (L # xs)"
    then consider "x = L" | "x \<in> set xs" by auto
    then show "prv h (nxt h x) = x \<and> nxt h (prv h x) = x"
    proof cases
      case 1
      have "prv h (nxt h L) = L" using c by (cases xs) auto
      moreover have "nxt h (prv h L) = L" using c by (cases xs rule: rev_cases) auto
      ultimately show ?thesis using 1 by simp
    next
      case 2
      then obtain us vs where xs: "xs = us @ x # vs" by (auto simp: in_set_conv_decomp)
      with c have cc: "chain h L us x" "chain h x vs L" by simp_all
      have "prv h (nxt h x) = x" using cc(2) by (cases vs) auto
      moreover have "nxt h (prv h x) = x" using cc(1) by (cases us rule: rev_cases) auto
      ultimately show ?thesis by simp
    qed
  qed
qed


lemma list_step_ring:
  assumes "ring h L xs" and "list_model L p xs = Some ys"
  shows "ring (list_step L p h) L ys"
proof (cases p)
  case (PushFront n)
  with assms show ?thesis by (auto simp: ring_push_front split: if_splits)
next
  case (PushBack n)
  with assms show ?thesis by (auto simp: ring_push_back split: if_splits)
next
  case PopFront
  with assms show ?thesis by (auto simp: ring_pop_front split: list.splits)
next
  case PopBack
  with assms obtain x where "xs = ys @ [x]"
    by (cases xs rule: rev_cases) (auto split: if_splits)
  with assms(1) PopBack show ?thesis by (simp add: ring_pop_back)
next
  case (Insert pos n)
  show ?thesis
  proof (cases "pos = L")
    case True
    with assms Insert show ?thesis
      by (auto simp: insert_node_end [OF assms(1)] ring_push_back split: if_splits)
  next
    case False
    with assms Insert have n: "n \<notin> set (L # xs)" and p: "pos \<in> set xs"
      and y: "ys = takeWhile (\<lambda>z. z \<noteq> pos) xs @ n # dropWhile (\<lambda>z. z \<noteq> pos) xs"
      by (auto split: if_splits)
    from p obtain us vs where xs: "xs = us @ pos # vs" by (auto simp: in_set_conv_decomp)
    have "pos \<notin> set us" using assms(1) xs by (auto simp: ring_def)
    then have "takeWhile (\<lambda>z. z \<noteq> pos) xs = us" "dropWhile (\<lambda>z. z \<noteq> pos) xs = pos # vs"
      unfolding xs by (induction us) auto
    then have "ys = us @ n # pos # vs" using y by simp
    then show ?thesis
      using ring_insert_node [of h L us pos vs n] assms(1) n xs Insert by simp
  qed
next
  case (Erase pos)
  with assms have p: "pos \<in> set xs" and y: "ys = remove1 pos xs" by (auto split: if_splits)
  from p obtain us vs where xs: "xs = us @ pos # vs" by (auto simp: in_set_conv_decomp)
  have "pos \<notin> set us" using assms(1) xs by (auto simp: ring_def)
  then have "ys = us @ vs" using y xs by (simp add: remove1_append)
  then show ?thesis using ring_erase(2) [of h L us pos vs] assms(1) xs Erase by simp
qed

lemma list_steps_ring:
  "ring h L xs \<Longrightarrow> list_models L ps xs = Some ys \<Longrightarrow> ring (fold (list_step L) ps h) L ys"
proof (induction ps arbitrary: h xs)
  case Nil
  then show ?case by simp
next
  case (Cons p ps)
  then show ?case by (auto split: option.splits dest: list_step_ring)
qed

lemma chain_redirect:
  assumes "chain h a xs b"
    and "\<forall>y\<in>set (butlast (a # xs)). nxt h' y = nxt h y"
    and "\<forall>y\<in>set xs. prv h' y = prv h y"
    and "nxt h' (last (a # xs)) = c" and "prv h' c = last (a # xs)"
  shows "chain h' a xs c"
  using assms by (induction xs arbitrary: a) auto

lemma last_notin_butlast: "distinct xs \<Longrightarrow> xs \<noteq> [] \<Longrightarrow> last xs \<notin> set (butlast xs)"
  by (induction xs) (auto dest: in_set_butlastD)

lemma splice_nodes_nxt:
  assumes "fst_it \<noteq> lst_it"
    and "nxt h (prv h pos) = pos" and "nxt h (prv h fst_it) = fst_it"
    and "nxt h (prv h lst_it) = lst_it"
  shows "nxt (splice_nodes pos fst_it lst_it h)
     = (nxt h)(prv h pos := fst_it, prv h fst_it := lst_it, prv h lst_it := pos)"
    and "prv (splice_nodes pos fst_it lst_it h)
     = (prv h)(fst_it := prv h pos, pos := prv h lst_it, lst_it := prv h fst_it)"
  using assms
  by (simp_all add: splice_nodes_def non_const_transform_def set_next_def set_prev_def Let_def)


lemma chain_last_next: "chain h x xs y \<Longrightarrow> nxt h (last (x # xs)) = y"
  by (induction xs arbitrary: x) auto

lemma splice_between_lists:
  assumes r1: "ring h L1 (us @ vs)" and r2: "ring h L2 (as @ f # bs @ cs)"
    and dj: "set (L1 # us @ vs) \<inter> set (L2 # as @ f # bs @ cs) = {}"
  shows "ring (splice_nodes (hd (vs @ [L1])) f (hd (cs @ [L2])) h) L1 (us @ f # bs @ vs)"
    and "ring (splice_nodes (hd (vs @ [L1])) f (hd (cs @ [L2])) h) L2 (as @ cs)"
proof -
  define p where "p = hd (vs @ [L1])"
  define l where "l = hd (cs @ [L2])"
  define a where "a = last (L1 # us)"
  define b where "b = last (L2 # as)"
  define e where "e = last (f # bs)"
  let ?h = "splice_nodes p f l h"
  have d1: "distinct (L1 # us @ vs)" and d2: "distinct (L2 # as @ f # bs @ cs)"
    using r1 r2 by (simp_all add: ring_def)
  have c1: "chain h L1 us p" and c1': "vs = [] \<or> (\<exists>vs'. vs = p # vs' \<and> chain h p vs' L1)"
    using r1 by (cases vs; simp add: ring_def p_def)+
  have c2: "chain h L2 as f" and c3: "chain h f bs l"
    and c3': "cs = [] \<or> (\<exists>cs'. cs = l # cs' \<and> chain h l cs' L2)"
    using r2 by (cases cs; simp add: ring_def l_def)+
  have pa: "prv h p = a" using chain_prev [OF c1] by (simp add: a_def)
  have pb: "prv h f = b" using chain_prev [OF c2] by (simp add: b_def)
  have pe: "prv h l = e" using chain_prev [OF c3] by (simp add: e_def)
  have na: "nxt h a = p" using chain_last_next [OF c1] by (simp add: a_def)
  have nb: "nxt h b = f" using chain_last_next [OF c2] by (simp add: b_def)
  have ne: "nxt h e = l" using chain_last_next [OF c3] by (simp add: e_def)
  have am: "a \<in> set (L1 # us)" unfolding a_def by (rule last_in_set) simp
  have bm: "b \<in> set (L2 # as)" unfolding b_def by (rule last_in_set) simp
  have em: "e \<in> set (f # bs)" unfolding e_def by (rule last_in_set) simp
  have pm: "p \<in> set (vs @ [L1])" unfolding p_def by (rule hd_in_set) simp
  have lm: "l \<in> set (cs @ [L2])" unfolding l_def by (rule hd_in_set) simp
  have fl: "f \<noteq> l" using lm d2 by auto
  have ab: "a \<noteq> b" "a \<noteq> e" "b \<noteq> e" using am bm em dj d2 by auto
  have fp: "f \<noteq> p" "p \<noteq> l" using pm lm dj by auto
  have nx: "nxt ?h = (nxt h)(a := f, b := l, e := p)"
    and pv: "prv ?h = (prv h)(f := a, p := e, l := b)"
    using splice_nodes_nxt [of f l h p] fl pa pb pe na nb ne by simp_all
  have ua: "a \<notin> set (butlast (L1 # us))"
    unfolding a_def by (rule last_notin_butlast) (use d1 in auto)
  have ub: "b \<notin> set (butlast (L2 # as))"
    unfolding b_def by (rule last_notin_butlast) (use d2 in auto)
  have ue: "e \<notin> set (butlast (f # bs))"
    unfolding e_def by (rule last_notin_butlast) (use d2 in auto)
  have i: "chain ?h L1 us f"
  proof (rule chain_redirect [OF c1])
    show "\<forall>y\<in>set (butlast (L1 # us)). nxt ?h y = nxt h y"
    proof
      fix y assume y: "y \<in> set (butlast (L1 # us))"
      then have "y \<in> set (L1 # us)" by (rule in_set_butlastD)
      then have "y \<noteq> b" "y \<noteq> e" using bm em dj by auto
      moreover have "y \<noteq> a" using y ua by auto
      ultimately show "nxt ?h y = nxt h y" by (simp add: nx)
    qed
    show "\<forall>y\<in>set us. prv ?h y = prv h y"
      using pm lm dj d1 by (auto simp: pv)
    show "nxt ?h (last (L1 # us)) = f" unfolding a_def [symmetric] using ab by (simp add: nx)
    show "prv ?h f = last (L1 # us)" unfolding a_def [symmetric] using fl fp by (simp add: pv)
  qed
  have ii: "chain ?h f bs p"
  proof (rule chain_redirect [OF c3])
    show "\<forall>y\<in>set (butlast (f # bs)). nxt ?h y = nxt h y"
    proof
      fix y assume y: "y \<in> set (butlast (f # bs))"
      then have "y \<in> set (f # bs)" by (rule in_set_butlastD)
      then have "y \<noteq> a" "y \<noteq> b" using am bm dj d2 by auto
      moreover have "y \<noteq> e" using y ue by auto
      ultimately show "nxt ?h y = nxt h y" by (simp add: nx)
    qed
    show "\<forall>y\<in>set bs. prv ?h y = prv h y"
      using pm lm dj d2 by (auto simp: pv)
    show "nxt ?h (last (f # bs)) = p" unfolding e_def [symmetric] by (simp add: nx)
    show "prv ?h p = last (f # bs)" unfolding e_def [symmetric] using fp by (simp add: pv)
  qed
  have iii: "chain ?h L2 as l"
  proof (rule chain_redirect [OF c2])
    show "\<forall>y\<in>set (butlast (L2 # as)). nxt ?h y = nxt h y"
    proof
      fix y assume y: "y \<in> set (butlast (L2 # as))"
      then have "y \<in> set (L2 # as)" by (rule in_set_butlastD)
      then have "y \<noteq> a" "y \<noteq> e" using am em dj d2 by auto
      moreover have "y \<noteq> b" using y ub by auto
      ultimately show "nxt ?h y = nxt h y" by (simp add: nx)
    qed
    show "\<forall>y\<in>set as. prv ?h y = prv h y"
      using pm lm dj d2 by (auto simp: pv)
    show "nxt ?h (last (L2 # as)) = l" unfolding b_def [symmetric] using ab by (simp add: nx)
    show "prv ?h l = last (L2 # as)" unfolding b_def [symmetric] by (simp add: pv)
  qed
  have "chain ?h f (bs @ vs) L1"
  proof (cases vs)
    case Nil
    then have "p = L1" by (simp add: p_def)
    with ii Nil show ?thesis by simp
  next
    case (Cons v vs')
    then have v: "v = p" by (simp add: p_def)
    with c1' Cons have c: "chain h p vs' L1" by simp
    have "chain ?h p vs' L1"
    proof (rule chain_frame [OF c])
      show "\<forall>y\<in>set (p # vs'). nxt ?h y = nxt h y"
        using am bm em dj d1 Cons v by (auto simp: nx)
      show "\<forall>y\<in>set (vs' @ [L1]). prv ?h y = prv h y"
        using lm dj d1 Cons v by (auto simp: pv)
    qed
    with ii Cons v show ?thesis by simp
  qed
  with i have "chain ?h L1 (us @ f # bs @ vs) L1" by simp
  moreover have "distinct (L1 # us @ f # bs @ vs)" using d1 d2 dj by auto
  ultimately show "ring (splice_nodes (hd (vs @ [L1])) f (hd (cs @ [L2])) h) L1 (us @ f # bs @ vs)"
    by (simp add: ring_def p_def l_def)
  have "chain ?h L2 (as @ cs) L2"
  proof (cases cs)
    case Nil
    then have "l = L2" by (simp add: l_def)
    with iii Nil show ?thesis by simp
  next
    case (Cons v cs')
    then have v: "v = l" by (simp add: l_def)
    with c3' Cons have c: "chain h l cs' L2" by simp
    have "chain ?h l cs' L2"
    proof (rule chain_frame [OF c])
      show "\<forall>y\<in>set (l # cs'). nxt ?h y = nxt h y"
        using am bm em dj d2 Cons v by (auto simp: nx)
      show "\<forall>y\<in>set (cs' @ [L2]). prv ?h y = prv h y"
        using pm dj d2 Cons v by (auto simp: pv)
    qed
    with iii Cons v show ?thesis by simp
  qed
  moreover have "distinct (L2 # as @ cs)" using d2 by auto
  ultimately show "ring (splice_nodes (hd (vs @ [L1])) f (hd (cs @ [L2])) h) L2 (as @ cs)"
    by (simp add: ring_def p_def l_def)
qed

text \<open>
  C8, at a failing input: the list with sentinel 0 holds 1, 2, 3 and
  \<open>splice(pos, l, first, last)\<close> is called on the list itself with \<open>pos == last\<close>, a
  call that should change nothing. With the range \<open>[2, 3)\<close> and \<open>pos = 3\<close> element 2
  drops out of both traversals although its \<open>next\<close> is still 3, whose \<open>prev\<close> is
  now 1; with the range \<open>[2, end())\<close> and \<open>pos = end()\<close> elements 2 and 3 drop out,
  still chained to the sentinel, whose \<open>prev\<close> is now 1.
\<close>

theorem splice_before_last_drops_range:
  "to_list 10 (push_back 0 3 (push_back 0 2 (push_back 0 1 heap0))) 0 = Some [1, 2, 3]
   \<and> to_list 10 (splice_nodes 3 2 3 (push_back 0 3 (push_back 0 2 (push_back 0 1 heap0)))) 0
       = Some [1, 3]
   \<and> to_list_rev 10 (splice_nodes 3 2 3 (push_back 0 3 (push_back 0 2 (push_back 0 1 heap0)))) 0
       = Some [3, 1]
   \<and> nxt (splice_nodes 3 2 3 (push_back 0 3 (push_back 0 2 (push_back 0 1 heap0)))) 2 = 3
   \<and> prv (splice_nodes 3 2 3 (push_back 0 3 (push_back 0 2 (push_back 0 1 heap0)))) 3 = 1
   \<and> to_list 10 (splice_nodes 0 2 0 (push_back 0 3 (push_back 0 2 (push_back 0 1 heap0)))) 0
       = Some [1]
   \<and> nxt (splice_nodes 0 2 0 (push_back 0 3 (push_back 0 2 (push_back 0 1 heap0)))) 2 = 3
   \<and> nxt (splice_nodes 0 2 0 (push_back 0 3 (push_back 0 2 (push_back 0 1 heap0)))) 3 = 0
   \<and> prv (splice_nodes 0 2 0 (push_back 0 3 (push_back 0 2 (push_back 0 1 heap0)))) 0 = 1"
  by code_simp

section \<open>The two source files side by side\<close>

lemma sim_linked: "sim s t \<Longrightarrow> is_linked t = is_linked s"
  by (auto simp: sim_def is_linked_def intro!: ext)

lemma sim_disconnect:
  assumes u: "undestroyed s" and r: "sim s t" and "c \<noteq> fake"
  shows "sim_step (disconnect Main c s) (disconnect Alt c t)"
proof (cases "is_linked s c")
  case False
  then have "\<not> is_linked t c" using r by (simp add: sim_linked)
  with False u r show ?thesis by (simp add: disconnect_def sim_step_def)
next
  case True
  then have lt: "is_linked t c" using r by (simp add: sim_linked)
  have g: "csig t c = csig s c" using r True assms(3) by (simp add: sim_def)
  have a: "alive s" "alive t" using u r by (simp_all add: undestroyed_def sim_def)
  show ?thesis
  proof (cases "csig s c = Sig")
    case False
    with True lt g show ?thesis
      by (simp add: disconnect_def sim_step_def Let_def unlink_fields)
  next
    case sg: True
    let ?s' = "(unlink c s)\<lparr>cslot := (cslot s)(c := None), csig := (csig s)(c := Null)\<rparr>"
    let ?t' = "(unlink c t)\<lparr>cslot := (cslot t)(c := None), csig := csig t\<rparr>"
    have ds: "disconnect Main c s = Inr ?s'"
      using disconnect_linked [OF True sg a(1), of Main] by simp
    have dt: "disconnect Alt c t = Inr ?t'"
      using disconnect_linked [OF lt _ a(2), of Alt] g sg by simp
    have c: "consistent s" using u by (simp add: undestroyed_def)
    have "sim ?s' ?t'"
      unfolding sim_def
    proof (intro conjI allI impI)
      fix z assume "z \<noteq> fake" and "is_linked ?s' z"
      then have "is_linked s z \<and> z \<noteq> c" using linked_after_unlink [OF c, of c z] by simp
      then show "csig ?t' z = csig ?s' z" using r \<open>z \<noteq> fake\<close> by (simp add: sim_def)
    qed (use r in \<open>simp_all add: sim_def unlink_nxt unlink_prv unlink_fields\<close>)
    moreover have "undestroyed ?s'"
      using u consistent_unlink [OF c, of c]
      by (auto simp: undestroyed_def unlink_fields split: if_splits)
    ultimately show ?thesis by (simp add: ds dt sim_step_def)
  qed
qed

lemma disconnect_unlinks: "disconnect i c s = Inr s' \<Longrightarrow> \<not> is_linked s' c"
  by (cases i) (auto simp: disconnect_def Let_def advance_tokens_def is_linked_def unlink_nxt
      unlink_prv split: if_splits)

lemma sim_connection_dtor:
  assumes "undestroyed s" and "sim s t" and "c \<noteq> fake"
  shows "sim_step (connection_dtor Main c s) (connection_dtor Alt c t)"
proof -
  note d = sim_disconnect [OF assms]
  show ?thesis
  proof (cases "disconnect Main c s")
    case (Inl u)
    with d show ?thesis by (simp add: sim_step_def connection_dtor_def)
  next
    case (Inr s1)
    with d obtain t1 where t1: "disconnect Alt c t = Inr t1" "sim s1 t1" "undestroyed s1"
      by (auto simp: sim_step_def split: sum.splits)
    have "\<not> is_linked s1 c" using Inr by (rule disconnect_unlinks)
    moreover have "\<not> is_linked t1 c" using t1(1) by (rule disconnect_unlinks)
    ultimately show ?thesis
      using Inr t1 by (simp add: sim_step_def connection_dtor_def unlink_unlinked)
  qed
qed

lemma sim_connect:
  assumes u: "undestroyed s" and r: "sim s t" and "c \<noteq> fake" and l: "\<not> is_linked s c"
    and b: "list_all destroy_free body"
  shows "sim_step (connect c (f, body) s) (connect c (f, body) t)"
proof -
  have lt: "\<not> is_linked t c" using r l by (simp add: sim_linked)
  have a: "alive s" "alive t" using u r by (simp_all add: undestroyed_def sim_def)
  have c: "consistent s" using u by (simp add: undestroyed_def)
  let ?s' = "push_front fake c (s\<lparr>csig := (csig s)(c := Sig), cslot := (cslot s)(c := Some (f, body))\<rparr>)"
  let ?t' = "push_front fake c (t\<lparr>csig := (csig t)(c := Sig), cslot := (cslot t)(c := Some (f, body))\<rparr>)"
  have cs: "connect c (f, body) s = Inr ?s'"
    using a l by (simp add: connect_def list_element_unlinked Let_def)
  have ct: "connect c (f, body) t = Inr ?t'"
    using a lt by (simp add: connect_def list_element_unlinked Let_def)
  have "sim ?s' ?t'"
    unfolding sim_def
  proof (intro conjI allI impI)
    fix z assume z: "z \<noteq> fake" and "is_linked ?s' z"
    then have "is_linked (push_front fake c s) z"
      by (simp add: is_linked_def push_front_nxt push_front_prv)
    then have "z \<noteq> c \<longrightarrow> is_linked s z"
      using linked_after_push_front [OF c, of fake c z] z by blast
    then show "csig ?t' z = csig ?s' z" using r z by (auto simp: sim_def push_front_fields)
  qed (use r in \<open>simp_all add: sim_def push_front_nxt push_front_prv push_front_fields\<close>)
  moreover have "consistent (push_front fake c s)"
    using c l assms(3) by (rule consistent_push_front)
  then have "undestroyed ?s'"
    using u b by (auto simp: undestroyed_def push_front_fields consistent_def push_front_nxt
        push_front_prv split: if_splits)
  ultimately show ?thesis by (simp add: cs ct sim_step_def)
qed

lemma sim_safe_move:
  assumes u: "undestroyed s" and r: "sim s t"
    and n: "this \<noteq> fake" "other \<noteq> fake" "this \<noteq> other"
    and l: "\<not> is_linked s this"
    and g: "is_linked s other \<longrightarrow> csig t this = csig s this"
  shows "sim_step (safe_move this other s) (safe_move this other t)"
proof (cases "is_linked s other")
  case False
  then have "\<not> is_linked t other" using r by (simp add: sim_linked)
  with False u r show ?thesis by (simp add: safe_move_def sim_step_def)
next
  case True
  then have lt: "is_linked t other" using r by (simp add: sim_linked)
  have go: "csig t other = csig s other" using r True n(2) by (simp add: sim_def)
  have gt: "csig t this = csig s this" using g True by simp
  have a: "alive s" "alive t" using u r by (simp_all add: undestroyed_def sim_def)
  have c: "consistent s" using u by (simp add: undestroyed_def)
  show ?thesis
  proof (cases "csig s other \<noteq> Sig \<or> csig s this \<noteq> Sig")
    case True
    with \<open>is_linked s other\<close> lt go gt show ?thesis by (simp add: safe_move_def sim_step_def)
  next
    case False
    let ?hs = "unlink other (insert_node other this s)"
    let ?ht = "unlink other (insert_node other this t)"
    have ms: "safe_move this other s = Inr (repoint_tokens this other ?hs)"
      using False \<open>is_linked s other\<close> a by (simp add: safe_move_def Let_def)
    have mt: "safe_move this other t = Inr (repoint_tokens this other ?ht)"
      using False lt go gt a by (simp add: safe_move_def Let_def)
    have ci: "consistent (insert_node other this s)"
      using c l n(3) by (rule consistent_insert_node)
    have e: "nxt ?ht = nxt ?hs" "prv ?ht = prv ?hs"
      using r by (simp_all add: sim_def unlink_nxt unlink_prv insert_node_nxt insert_node_prv)
    have f: "csig ?hs = csig s" "csig ?ht = csig t" "cslot ?hs = cslot s" "cslot ?ht = cslot t"
      "tok ?hs = tok s" "tok ?ht = tok t" "top ?hs = top s" "top ?ht = top t"
      "alive ?hs = alive s" "alive ?ht = alive t" "trace ?hs = trace s" "trace ?ht = trace t"
      by (simp_all add: unlink_fields insert_node_fields)
    have "sim (repoint_tokens this other ?hs) (repoint_tokens this other ?ht)"
      unfolding sim_def
    proof (intro conjI allI impI)
      fix z assume z: "z \<noteq> fake" and "is_linked (repoint_tokens this other ?hs) z"
      then have "is_linked ?hs z" by (simp add: repoint_tokens_def)
      then have "is_linked (insert_node other this s) z"
        using linked_after_unlink [OF ci] by blast
      then have "z \<noteq> this \<longrightarrow> is_linked s z"
        using linked_after_insert_node [OF c _ _ \<open>is_linked s other\<close>] by blast
      then show "csig (repoint_tokens this other ?ht) z = csig (repoint_tokens this other ?hs) z"
        using r z gt by (auto simp: sim_def repoint_tokens_def f)
    qed (use r e in \<open>simp_all add: sim_def repoint_tokens_def f cong: if_cong\<close>)
    moreover have "undestroyed (repoint_tokens this other ?hs)"
      using u consistent_unlink [OF ci, of other]
      by (auto simp: undestroyed_def repoint_tokens_def f)
    ultimately show ?thesis by (simp add: ms mt sim_step_def)
  qed
qed

lemma sim_move_ctor:
  assumes u: "undestroyed s" and r: "sim s t"
    and n: "d \<noteq> fake" "c \<noteq> fake" "d \<noteq> c" and l: "\<not> is_linked s d"
  shows "sim_step (move_ctor d c s) (move_ctor d c t)"
proof -
  have lt: "\<not> is_linked t d" using r l by (simp add: sim_linked)
  let ?s3 = "s\<lparr>csig := (csig s)(d := csig s c), cslot := (cslot s)(d := cslot s c)\<rparr>"
  let ?t3 = "t\<lparr>csig := (csig t)(d := csig t c), cslot := (cslot t)(d := cslot t c)\<rparr>"
  have ms: "move_ctor d c s = safe_move d c ?s3"
    using l by (simp add: move_ctor_def list_element_unlinked Let_def)
  have mt: "move_ctor d c t = safe_move d c ?t3"
    using lt by (simp add: move_ctor_def list_element_unlinked Let_def)
  have r3: "sim ?s3 ?t3" using r l by (auto simp: sim_def)
  have u3: "undestroyed ?s3" using u by (auto simp: undestroyed_def)
  have "sim_step (safe_move d c ?s3) (safe_move d c ?t3)"
  proof (rule sim_safe_move [OF u3 r3 n])
    show "\<not> is_linked ?s3 d" using l by simp
    show "is_linked ?s3 c \<longrightarrow> csig ?t3 d = csig ?s3 d" using r n(2) by (simp add: sim_def)
  qed
  then show ?thesis by (simp add: ms mt)
qed

lemma sim_move_assign:
  assumes u: "undestroyed s" and r: "sim s t" and n: "d \<noteq> fake" "c \<noteq> fake"
  shows "sim_step (move_assign Main d c s) (move_assign Alt d c t)"
proof (cases "d = c")
  case True
  with u r show ?thesis by (simp add: move_assign_def sim_step_def)
next
  case False
  note dd = sim_disconnect [OF u r n(1)]
  show ?thesis
  proof (cases "disconnect Main d s")
    case (Inl e)
    with dd False show ?thesis by (simp add: sim_step_def move_assign_def)
  next
    case (Inr s1)
    with dd obtain t1 where t1: "disconnect Alt d t = Inr t1" "sim s1 t1" "undestroyed s1"
      by (auto simp: sim_step_def split: sum.splits)
    have l: "\<not> is_linked s1 d" using Inr by (rule disconnect_unlinks)
    let ?s3 = "s1\<lparr>csig := (csig s1)(d := csig s1 c),
                  cslot := (cslot s1)(d := cslot s1 c, c := None)\<rparr>"
    let ?t3 = "t1\<lparr>csig := (csig t1)(d := csig t1 c),
                  cslot := (cslot t1)(d := cslot t1 c, c := None)\<rparr>"
    have ms: "move_assign Main d c s = safe_move d c ?s3"
      using False Inr by (simp add: move_assign_def Let_def)
    have mt: "move_assign Alt d c t = safe_move d c ?t3"
      using False t1(1) by (simp add: move_assign_def Let_def)
    have r3: "sim ?s3 ?t3" using t1(2) l by (auto simp: sim_def)
    have u3: "undestroyed ?s3" using t1(3) by (auto simp: undestroyed_def)
    have "sim_step (safe_move d c ?s3) (safe_move d c ?t3)"
    proof (rule sim_safe_move [OF u3 r3 n False])
      show "\<not> is_linked ?s3 d" using l by simp
      show "is_linked ?s3 c \<longrightarrow> csig ?t3 d = csig ?s3 d"
        using t1(2) n(2) by (simp add: sim_def)
    qed
    then show ?thesis by (simp add: ms mt)
  qed
qed

lemma sim_action:
  assumes "undestroyed s" and "sim s t" and "destroy_free a"
  shows "sim_step (step Main a s) (step Alt a t)"
proof (cases a)
  case (Default c)
  have "sim (connection_default c s) (connection_default c t)
        \<and> undestroyed (connection_default c s)" if "\<not> is_linked s c"
  proof -
    have "\<not> is_linked t c" using that assms(2) by (simp add: sim_linked)
    then show ?thesis
      using that assms(1,2)
      by (auto simp: connection_default_def list_element_unlinked sim_def undestroyed_def)
  qed
  then show ?thesis
    using Default assms(2) by (simp add: sim_step_def sim_linked)
next
  case (Connect c f body)
  then show ?thesis
    using assms sim_connect [OF assms(1,2), of c body f]
    by (simp add: sim_linked) (simp add: sim_step_def)
next
  case (Disconnect c)
  then show ?thesis
    using sim_disconnect [OF assms(1,2), of c] by (simp add: sim_step_def)
next
  case (Destruct c)
  then show ?thesis
    using sim_connection_dtor [OF assms(1,2), of c] by (simp add: sim_step_def)
next
  case (MoveCtor d c)
  then show ?thesis
    using sim_move_ctor [OF assms(1,2), of d c] assms(2)
    by (simp add: sim_linked) (simp add: sim_step_def)
next
  case (MoveAssign d c)
  then show ?thesis
    using sim_move_assign [OF assms(1,2), of d c] by (simp add: sim_step_def)
qed (use assms in \<open>simp_all add: sim_step_def\<close>)

lemma sim_push_token:
  assumes "undestroyed s" and "sim s t"
  shows "sim (push_token s) (push_token t)" and "undestroyed (push_token s)"
  using assms by (auto simp: sim_def undestroyed_def push_token_def begin_it_def)

lemma sim_leave:
  assumes "undestroyed s" and "sim s t"
  shows "sim_res (leave Main d out s) (leave Alt d out t)"
  using assms
  by (auto simp: sim_res_def leave_def release_token_def sim_def undestroyed_def)

lemma sim_res_same: "undestroyed s \<Longrightarrow> sim s t \<Longrightarrow> sim_res (Some (out, s)) (Some (out, t))"
  by (simp add: sim_res_def)

lemma sim_run:
  "(list_all destroy_free acts \<longrightarrow> undestroyed s \<longrightarrow> sim s t \<longrightarrow>
      sim_res (exec Main k acts s) (exec Alt k acts t))
   \<and> (undestroyed s \<longrightarrow> sim s t \<longrightarrow> sim_res (invoke Main k c x s) (invoke Alt k c x t))
   \<and> (undestroyed s \<longrightarrow> sim s t \<longrightarrow> sim_res (emit_loop Main k d x s) (emit_loop Alt k d x t))"
proof (induction k arbitrary: acts s t c x d)
  case 0
  show ?case by (simp add: sim_res_def)
next
  case (Suc k)
  have ih_exec: "sim_res (exec Main k acts' s') (exec Alt k acts' t')"
    if "list_all destroy_free acts'" "undestroyed s'" "sim s' t'" for acts' s' t'
    using Suc that by blast
  have ih_invoke: "sim_res (invoke Main k c' x' s') (invoke Alt k c' x' t')"
    if "undestroyed s'" "sim s' t'" for c' x' s' t'
    using Suc that by blast
  have ih_loop: "sim_res (emit_loop Main k d' x' s') (emit_loop Alt k d' x' t')"
    if "undestroyed s'" "sim s' t'" for d' x' s' t'
    using Suc that by blast
  have e: "sim_res (exec Main (Suc k) acts s) (exec Alt (Suc k) acts t)"
    if nd: "list_all destroy_free acts" and u: "undestroyed s" and r: "sim s t"
  proof (cases acts)
    case Nil
    with u r show ?thesis by (simp add: sim_res_def)
  next
    case (Cons a rest)
    have nr: "list_all destroy_free rest" and na: "destroy_free a" using nd Cons by simp_all
    have al: "alive s" "alive t" using u r by (simp_all add: undestroyed_def sim_def)
    have tp: "top t = top s" using r by (simp add: sim_def)
    show ?thesis
    proof (cases "\<exists>y. a = Emit y")
      case True
      then obtain y where a: "a = Emit y" by blast
      note l = ih_loop [OF sim_push_token(2) [OF u r] sim_push_token(1) [OF u r], of "top s" y]
      show ?thesis
      proof (cases "emit_loop Main k (top s) y (push_token s)")
        case None
        with l show ?thesis using al tp by (simp add: Cons a sim_res_def)
      next
        case (Some p)
        obtain out s1 where p: "p = (out, s1)" by (cases p)
        with l Some obtain t1 where t1: "emit_loop Alt k (top s) y (push_token t) = Some (out, t1)"
          "sim s1 t1" "undestroyed s1"
          by (auto simp: sim_res_def split: option.splits)
        show ?thesis
        proof (cases "out = Returned")
          case True
          with ih_exec [OF nr t1(3) t1(2)] show ?thesis
            using al tp Some p t1(1) by (simp add: Cons a)
        next
          case False
          with t1 show ?thesis
            using al tp Some p by (simp add: Cons a sim_res_def)
        qed
      qed
    next
      case False
      show ?thesis
      proof (cases "a = Throw")
        case True
        with u r show ?thesis by (simp add: Cons sim_res_def)
      next
        case nt: False
        have nds: "a \<noteq> Destroy" using na by auto
        have es: "exec Main (Suc k) (a # rest) s =
            (case step Main a s of Inl e \<Rightarrow> Some (Undefined e, s)
             | Inr s1 \<Rightarrow> exec Main k rest s1)"
          using False nt nds by (cases a) simp_all
        have et: "exec Alt (Suc k) (a # rest) t =
            (case step Alt a t of Inl e \<Rightarrow> Some (Undefined e, t)
             | Inr s1 \<Rightarrow> exec Alt k rest s1)"
          using False nt nds by (cases a) simp_all
        note st = sim_action [OF u r na]
        show ?thesis
        proof (cases "step Main a s")
          case (Inl e)
          with st u r show ?thesis by (simp add: Cons es et sim_step_def sim_res_def)
        next
          case (Inr s1)
          with st obtain t1 where t1: "step Alt a t = Inr t1" "sim s1 t1" "undestroyed s1"
            by (auto simp: sim_step_def split: sum.splits)
          with ih_exec [OF nr t1(3) t1(2)] Inr show ?thesis by (simp add: Cons es et)
        qed
      qed
    qed
  qed
  have i: "sim_res (invoke Main (Suc k) c x s) (invoke Alt (Suc k) c x t)"
    if u: "undestroyed s" and r: "sim s t"
  proof (cases "cslot s c")
    case None
    with u r show ?thesis by (simp add: sim_res_def sim_def)
  next
    case (Some p)
    obtain f body where p: "p = (f, body)" by (cases p)
    have nb: "list_all destroy_free body" using u Some p by (auto simp: undestroyed_def)
    have ct: "cslot t c = Some (f, body)" using r Some p by (simp add: sim_def)
    have "sim (s\<lparr>trace := trace s @ [(c, f, x)]\<rparr>) (t\<lparr>trace := trace t @ [(c, f, x)]\<rparr>)"
      "undestroyed (s\<lparr>trace := trace s @ [(c, f, x)]\<rparr>)"
      using u r by (auto simp: sim_def undestroyed_def)
    from ih_exec [OF nb this(2) this(1)] show ?thesis by (simp add: Some p ct)
  qed
  have l: "sim_res (emit_loop Main (Suc k) d x s) (emit_loop Alt (Suc k) d x t)"
    if u: "undestroyed s" and r: "sim s t"
  proof (cases "tcur (tok s d) = end_it fake")
    case True
    with sim_leave [OF u r, of d Returned] r show ?thesis by (simp add: sim_def)
  next
    case False
    let ?s1 = "s\<lparr>tok := (tok s)(d := (tok s d)\<lparr>tcur := nxt s (tcur (tok s d))\<rparr>)\<rparr>"
    let ?t1 = "t\<lparr>tok := (tok t)(d := (tok t d)\<lparr>tcur := nxt t (tcur (tok t d))\<rparr>)\<rparr>"
    have tk: "tok t = tok s" "nxt t = nxt s" using r by (simp_all add: sim_def)
    have r1: "sim ?s1 ?t1" and u1: "undestroyed ?s1"
      using u r by (auto simp: sim_def undestroyed_def)
    note v = ih_invoke [OF u1 r1, of "tcur (tok s d)" x]
    show ?thesis
    proof (cases "invoke Main k (tcur (tok s d)) x ?s1")
      case None
      with v False show ?thesis by (simp add: tk Let_def sim_res_def)
    next
      case (Some p)
      obtain out s2 where p: "p = (out, s2)" by (cases p)
      with v Some obtain t2 where t2: "invoke Alt k (tcur (tok s d)) x ?t1 = Some (out, t2)"
        "sim s2 t2" "undestroyed s2"
        by (auto simp: sim_res_def split: option.splits)
      have g: "\<not> tgone (tok s2 d)" "\<not> tgone (tok t2 d)"
        using t2(2,3) by (simp_all add: undestroyed_def sim_def)
      show ?thesis
      proof (cases out)
        case Returned
        with ih_loop [OF t2(3) t2(2), of d x] show ?thesis
          using False Some p t2(1) g by (simp add: tk Let_def)
      next
        case (Threw ex)
        with sim_leave [OF t2(3) t2(2), of d "Threw ex"] show ?thesis
          using False Some p t2(1) by (simp add: tk Let_def)
      next
        case (Undefined e)
        with t2 show ?thesis
          using False Some p by (simp add: tk Let_def sim_res_def)
      qed
    qed
  qed
  from e i l show ?case by blast
qed

lemma sim_observable: "sim s t \<Longrightarrow> observable s = observable t"
  by (cases s; cases t) (auto simp: sim_def observable_def is_linked_def intro!: ext)

lemma sim_refl: "sim s s"
  by (simp add: sim_def)

lemma undestroyed_state0: "undestroyed state0"
  by (simp add: undestroyed_def state0_def consistent_def)

text \<open>
  C9: a program that never destroys the signal, run from a state in which the signal
  exists, gives the same result in src/signals.h and in src/unnamed/part_000: the same
  outcome (also the same exception, and the same step bound when the bound is used up),
  the same callbacks invoked with the same arguments in the same order, the same chain,
  the same callbacks held, the same tokens and the same \<open>top_token\<close>. The two differ
  only in the field \<open>sig\<close> of connections that are not linked.
\<close>

theorem implementations_equivalent:
  assumes "list_all destroy_free acts" and "undestroyed s"
  shows "map_option (map_prod id observable) (exec Main k acts s)
         = map_option (map_prod id observable) (exec Alt k acts s)"
proof -
  have "sim_res (exec Main k acts s) (exec Alt k acts s)"
    using sim_run [of acts s s k] assms sim_refl by blast
  then show ?thesis
    by (auto simp: sim_res_def sim_observable split: option.splits)
qed

theorem implementations_equivalent_witness:
  "map_option (map_prod id observable)
     (exec Main 40 [Connect 2 2 [Disconnect 2], Connect 3 3 [], Connect 4 4 [], Emit 7,
        Disconnect 3, MoveAssign 3 4, Emit 8] state0)
   = map_option (map_prod id observable)
     (exec Alt 40 [Connect 2 2 [Disconnect 2], Connect 3 3 [], Connect 4 4 [], Emit 7,
        Disconnect 3, MoveAssign 3 4, Emit 8] state0)
   \<and> map_option (\<lambda>(out, s). (out, trace s, to_list 10 s fake, top s, csig s 2))
     (exec Main 40 [Connect 2 2 [Disconnect 2], Connect 3 3 [], Connect 4 4 [], Emit 7,
        Disconnect 3, MoveAssign 3 4, Emit 8] state0)
     = Some (Returned, [(4, 4, 7), (3, 3, 7), (2, 2, 7), (3, 4, 8)], Some [3], 0, Null)
   \<and> map_option (\<lambda>(out, s). (out, trace s, to_list 10 s fake, top s, csig s 2))
     (exec Alt 40 [Connect 2 2 [Disconnect 2], Connect 3 3 [], Connect 4 4 [], Emit 7,
        Disconnect 3, MoveAssign 3 4, Emit 8] state0)
     = Some (Returned, [(4, 4, 7), (3, 3, 7), (2, 2, 7), (3, 4, 8)], Some [3], 0, Sig)"
proof -
  have "list_all destroy_free
     [Connect 2 2 [Disconnect 2], Connect 3 3 [], Connect 4 4 [], Emit 7,
        Disconnect 3, MoveAssign 3 4, Emit 8]"
    by simp
  from implementations_equivalent [OF this undestroyed_state0, of 40]
  have a: "map_option (map_prod id observable)
     (exec Main 40 [Connect 2 2 [Disconnect 2], Connect 3 3 [], Connect 4 4 [], Emit 7,
        Disconnect 3, MoveAssign 3 4, Emit 8] state0)
   = map_option (map_prod id observable)
     (exec Alt 40 [Connect 2 2 [Disconnect 2], Connect 3 3 [], Connect 4 4 [], Emit 7,
        Disconnect 3, MoveAssign 3 4, Emit 8] state0)" .
  have b: "map_option (\<lambda>(out, s). (out, trace s, to_list 10 s fake, top s, csig s 2))
     (exec Main 40 [Connect 2 2 [Disconnect 2], Connect 3 3 [], Connect 4 4 [], Emit 7,
        Disconnect 3, MoveAssign 3 4, Emit 8] state0)
     = Some (Returned, [(4, 4, 7), (3, 3, 7), (2, 2, 7), (3, 4, 8)], Some [3], 0, Null)"
    by code_simp
  have c: "map_option (\<lambda>(out, s). (out, trace s, to_list 10 s fake, top s, csig s 2))
     (exec Alt 40 [Connect 2 2 [Disconnect 2], Connect 3 3 [], Connect 4 4 [], Emit 7,
        Disconnect 3, MoveAssign 3 4, Emit 8] state0)
     = Some (Returned, [(4, 4, 7), (3, 3, 7), (2, 2, 7), (3, 4, 8)], Some [3], 0, Sig)"
    by code_simp
  from a b c show ?thesis by (intro conjI)
qed

end
